theory Spec2Isabelle
  imports Complex_Main
begin

section \<open>Data model of the PC skeleton engine (skeleton.cpp)\<close>

text \<open>
  The engine class \<open>PCAlgorithm\<close> of \<open>skeleton.cpp\<close> is embedded with explicit state
  passing. The arguments \<open>vars\<close>, \<open>samples\<close> and \<open>numberThreads\<close> of the constructor are
  of type \<open>int\<close> in the source, here integers, a 32-bit \<open>int\<close> holding the values from
  \<open>- 2147483648\<close> to \<open>2147483647\<close>. The constructor returns an instance for a
  non-negative \<open>vars\<close> only, so \<open>_nr_variables\<close> and the variable indices are natural
  numbers; \<open>_nr_threads\<close> and \<open>_nr_samples\<close> are stored as given and are integers.
  Neighbour counts, the level and \<open>queue_size\<close> are integers, so that
  \<open>getNeighbourCount(x) - 1\<close> can be negative as in the source. Doubles are modelled by
  reals: rounding and NaN are not modelled. Memory is not bounded: an allocation of a
  size that the size type can hold succeeds.

  Every \<open>shared_ptr\<close> field is assigned from \<open>make_shared\<close> only, so two fields never
  point to the same object; each is modelled by the value it points to, and the null
  pointer of \<open>_working_graph\<close> by \<open>None\<close>. The instance itself is owned by a
  \<open>shared_ptr\<close>, as \<open>shared_from_this()\<close> at line 60 presupposes.
\<close>

type_synonym graph = "nat list list"

type_synonym TestInstruction = "nat \<times> nat"

type_synonym matrix = "real list list"

text \<open>
  The ways in which an operation fails: dereferencing the null \<open>_working_graph\<close>, a
  read outside a vector, the \<open>std::length_error\<close> of a \<open>std::vector\<close> built with a
  negative \<open>int\<close> as its size (converted to \<open>size_t\<close>, it exceeds \<open>max_size()\<close>), the
  exception of \<open>arma::Mat\<close> for a negative \<open>int\<close> as a dimension (converted to the
  unsigned \<open>uword\<close>, the requested matrix is too large), and the overflow of a product
  of two \<open>int\<close>, which is undefined behaviour.
\<close>

datatype error =
  NullPointerDereference | OutOfBoundsRead | LengthError | MatrixTooLarge | SignedOverflow

text \<open>What is inserted into \<open>std::cout\<close>, item by item.\<close>

datatype cout_item = Str string | Chr char | Num int | Endl

text \<open>
  The actions of the engine thread on the work queue and on worker threads, in program
  order, each tagged with the level at which it happens: line 34 (enqueue), line 67
  (thread creation) and line 71 (join).
\<close>

datatype event = EvEnqueue int TestInstruction | EvSpawn int nat | EvJoin int nat

text \<open>
  The state: the fields of the class that \<open>skeleton.cpp\<close> uses, followed by what has been
  inserted into \<open>std::cout\<close> so far and by the actions of the engine thread so far.
\<close>

record pc_algorithm =
  graph :: graph
  working_graph :: "graph option"
  alpha :: real
  nr_variables :: nat
  nr_samples :: int
  nr_threads :: int
  correlation :: matrix
  gauss_test :: "int \<times> matrix"
  work_queue :: "TestInstruction list"
  separation_matrix :: "nat list option list"
  cout :: "cout_item list"
  trace :: "event list"

subsection \<open>Graph\<close>

text \<open>
  Modelled from the spec: the class \<open>Graph\<close> (graph.h and graph.cpp are not part of the
  sources). Following sections 3 and 4.1 of the specification, a graph over
  \<open>{0..<p}\<close> is one ascending neighbour sequence per vertex; the constructor builds the
  complete graph, \<open>getNeighbours\<close> returns the sequence, \<open>getNeighbourCount\<close> its size,
  and \<open>deleteEdge i j\<close> removes \<open>j\<close> from the sequence of \<open>i\<close> and \<open>i\<close> from that of
  \<open>j\<close>. Copy construction is the copy of the value.
\<close>

definition Graph :: "nat \<Rightarrow> graph" where
  "Graph p = map (\<lambda>v. filter (\<lambda>u. u \<noteq> v) [0..<p]) [0..<p]"

definition getNeighbours :: "graph \<Rightarrow> nat \<Rightarrow> nat list" where
  "getNeighbours g v = g ! v"

definition getNeighbourCount :: "graph \<Rightarrow> nat \<Rightarrow> int" where
  "getNeighbourCount g v = int (length (g ! v))"

definition deleteEdge :: "graph \<Rightarrow> nat \<Rightarrow> nat \<Rightarrow> graph" where
  "deleteEdge g i j =
     (let g1 = g[i := removeAll j (g ! i)] in g1[j := removeAll i (g1 ! j)])"

text \<open>
  The invariants of section 3 of the specification: one sequence per vertex, without
  duplicates, within range, without self-loops, and symmetric.
\<close>

definition wf_graph :: "nat \<Rightarrow> graph \<Rightarrow> bool" where
  "wf_graph p g \<longleftrightarrow>
     length g = p \<and>
     list_all (\<lambda>v. distinct (g ! v) \<and> list_all (\<lambda>u. u < p \<and> u \<noteq> v \<and> v \<in> set (g ! u)) (g ! v))
       [0..<p]"

subsection \<open>Constructor\<close>

definition eye :: "nat \<Rightarrow> matrix" where
  "eye p = map (\<lambda>i. map (\<lambda>j. if i = j then 1 else 0) [0..<p]) [0..<p]"

text \<open>
  Lines 4 to 9. The constructor contains no check of its arguments and no \<open>throw\<close>.
  It fails where a library call or the arithmetic does: at line 5 \<open>arma::Mat\<close> takes
  its dimensions as unsigned numbers and cannot build the matrix for a negative
  \<open>vars\<close>, and at line 8 the product \<open>_nr_variables*_nr_variables\<close> is computed in
  \<open>int\<close> and overflows from \<open>vars = 46341\<close> on. \<open>alpha\<close>, \<open>samples\<close> and \<open>numberThreads\<close>
  are stored as they are. \<open>_working_graph\<close> is not initialised by the constructor, so
  it is the null pointer.
\<close>

definition INT_MAX :: int where
  "INT_MAX = 2147483647"

definition PCAlgorithm :: "int \<Rightarrow> real \<Rightarrow> int \<Rightarrow> int \<Rightarrow> error + pc_algorithm" where
  "PCAlgorithm vars alpha' samples' numberThreads =
     (if vars < 0 then Inl MatrixTooLarge
      else if INT_MAX < vars * vars then Inl SignedOverflow
      else
        Inr \<lparr> graph = Graph (nat vars),
              working_graph = None,
              alpha = alpha',
              nr_variables = nat vars,
              nr_samples = samples',
              nr_threads = numberThreads,
              correlation = eye (nat vars),
              gauss_test = (samples', eye (nat vars)),
              work_queue = [],
              separation_matrix = replicate (nat (vars * vars)) None,
              cout = [],
              trace = [] \<rparr>)"

subsection \<open>Queue filling (lines 29 to 43)\<close>

definition enqueue :: "int \<Rightarrow> TestInstruction \<Rightarrow> pc_algorithm \<Rightarrow> pc_algorithm" where
  "enqueue level ti s =
     s\<lparr> work_queue := work_queue s @ [ti], trace := trace s @ [EvEnqueue level ti] \<rparr>"

text \<open>The inner loop \<open>for (int &y : adj)\<close> of lines 32 to 37, on the state and \<open>queue_size\<close>.\<close>

primrec enqueue_neighbours ::
  "int \<Rightarrow> nat \<Rightarrow> nat list \<Rightarrow> pc_algorithm \<times> int \<Rightarrow> pc_algorithm \<times> int" where
  "enqueue_neighbours level x [] acc = acc"
| "enqueue_neighbours level x (y # adj) acc =
     enqueue_neighbours level x adj
       (case acc of (s, queue_size) \<Rightarrow>
          if y < x \<or> getNeighbourCount (graph s) y - 1 < level
          then (enqueue level (x, y) s, queue_size + 1)
          else (s, queue_size))"

text \<open>
  The outer loop \<open>for (int x : nodes_to_be_tested)\<close> of lines 29 to 43, on the state,
  \<open>queue_size\<close> and \<open>nodes_to_delete\<close>. The unordered set is the list of its elements in
  iteration order.
\<close>

primrec fill_queue ::
  "int \<Rightarrow> nat list \<Rightarrow> pc_algorithm \<times> int \<times> nat list \<Rightarrow> pc_algorithm \<times> int \<times> nat list" where
  "fill_queue level [] acc = acc"
| "fill_queue level (x # nodes) acc =
     fill_queue level nodes
       (case acc of (s, queue_size, nodes_to_delete) \<Rightarrow>
          if getNeighbourCount (graph s) x - 1 \<ge> level
          then (case enqueue_neighbours level x (getNeighbours (graph s) x) (s, queue_size) of
                  (s', queue_size') \<Rightarrow> (s', queue_size', nodes_to_delete))
          else (s, queue_size, nodes_to_delete @ [x]))"

subsection \<open>Workers\<close>

text \<open>
  Modelled from the spec: the class \<open>Worker\<close> (worker.h is not part of the sources).
  Following section 4.4 of the specification, a worker takes instructions \<open>(x, y)\<close> from
  the queue until it is empty; for each it runs the independence tests on the frozen
  graph, and on the first rejection with conditioning set \<open>S\<close> it deletes the edge from
  the working graph and writes \<open>S\<close> into both slots of the separation matrix if they
  are still empty. The outcome of the tests of one instruction is the parameter
  \<open>verdict\<close>: \<open>Some S\<close> for the first rejecting set, \<open>None\<close> when no test rejects. By
  property P5 of the specification the edge set does not depend on scheduling, so the
  instructions are processed in queue order.
\<close>

type_synonym verdict = "int \<Rightarrow> graph \<Rightarrow> nat \<Rightarrow> nat \<Rightarrow> nat list option"

definition set_if_empty :: "nat list option list \<Rightarrow> nat \<Rightarrow> nat list \<Rightarrow> nat list option list" where
  "set_if_empty sep k S = (if k < length sep \<and> sep ! k = None then sep[k := Some S] else sep)"

primrec execute_test ::
  "verdict \<Rightarrow> int \<Rightarrow> graph \<Rightarrow> nat \<Rightarrow> TestInstruction list \<Rightarrow>
   graph \<times> nat list option list \<Rightarrow> graph \<times> nat list option list" where
  "execute_test verdict level frozen p [] acc = acc"
| "execute_test verdict level frozen p (ti # queue) acc =
     execute_test verdict level frozen p queue
       (case acc of (w, sep) \<Rightarrow>
          (case verdict level frozen (fst ti) (snd ti) of
             None \<Rightarrow> (w, sep)
           | Some S \<Rightarrow>
               (deleteEdge w (fst ti) (snd ti),
                set_if_empty (set_if_empty sep (fst ti * p + snd ti) S) (snd ti * p + fst ti) S)))"

text \<open>
  Lines 50 to 72: \<open>_nr_threads\<close> workers are created, each started in its own thread,
  and all are joined. With no thread nothing is taken from the queue. The vector of
  line 53 has the size of the vector that line 17 has built before the loop is
  entered, so building it does not fail; the loop of line 56 counts from 0 up to
  \<open>_nr_threads\<close>.
\<close>

definition run_workers :: "verdict \<Rightarrow> int \<Rightarrow> pc_algorithm \<Rightarrow> pc_algorithm" where
  "run_workers verdict level s =
     (let s1 = s\<lparr> trace := trace s @ map (EvSpawn level) [0..<nat (nr_threads s)] \<rparr>;
          s2 = (if nr_threads s \<le> 0 then s1
                else (case working_graph s1 of
                        None \<Rightarrow> s1\<lparr> work_queue := [] \<rparr>
                      | Some w \<Rightarrow>
                          (case execute_test verdict level (graph s1) (nr_variables s1)
                                  (work_queue s1) (w, separation_matrix s1) of
                             (w', sep') \<Rightarrow>
                               s1\<lparr> working_graph := Some w', separation_matrix := sep',
                                   work_queue := [] \<rparr>)))
      in s2\<lparr> trace := trace s2 @ map (EvJoin level) [0..<nat (nr_threads s)] \<rparr>)"

subsection \<open>The level loop (lines 25 to 101)\<close>

datatype step = Break pc_algorithm | Continue pc_algorithm "nat list"

text \<open>
  One iteration of the \<open>while\<close> loop, entered with a non-empty \<open>nodes_to_be_tested\<close>.
  The block under \<open>WITH_STATS\<close> is not compiled in the default build and is left out;
  the timing macros have no effect on the state.
\<close>

definition level_body :: "verdict \<Rightarrow> int \<Rightarrow> nat list \<Rightarrow> pc_algorithm \<Rightarrow> error + step" where
  "level_body verdict level nodes_to_be_tested s =
     (case fill_queue level nodes_to_be_tested (s, 0, []) of
        (s1, queue_size, nodes_to_delete) \<Rightarrow>
          if queue_size \<noteq> 0 then
            (let s2 = s1\<lparr> cout := cout s1 @
                          [Str ''Queued all '', Num queue_size,
                           Str '' pairs, waiting for results..'', Endl] \<rparr>;
                 s3 = run_workers verdict level s2;
                 s4 = s3\<lparr> cout := cout s3 @
                          [Str ''All tests done for level '', Num level, Chr CHR ''.'', Endl] \<rparr>
             in case working_graph s4 of
                  None \<Rightarrow> Inl NullPointerDereference
                | Some w \<Rightarrow>
                    Inr (Continue (s4\<lparr> graph := w \<rparr>)
                           (fold removeAll nodes_to_delete nodes_to_be_tested)))
          else
            (let s2 = s1\<lparr> cout := cout s1 @
                          [Str ''No tests left for level '', Num level, Chr CHR ''.'', Endl] \<rparr>
             in case working_graph s2 of
                  None \<Rightarrow> Inl NullPointerDereference
                | Some w \<Rightarrow> Inr (Break (s2\<lparr> graph := w \<rparr>))))"


function level_loop ::
  "verdict \<Rightarrow> int \<Rightarrow> nat list \<Rightarrow> pc_algorithm \<Rightarrow> error + pc_algorithm \<times> int" where
  "level_loop verdict level nodes_to_be_tested s =
     (if nodes_to_be_tested = [] then Inr (s, level)
      else (case level_body verdict level nodes_to_be_tested s of
              Inl e \<Rightarrow> Inl e
            | Inr (Break s') \<Rightarrow> Inr (s', level)
            | Inr (Continue s' nodes') \<Rightarrow> level_loop verdict (level + 1) nodes' s'))"
  by pat_completeness auto

subsection \<open>build_graph (lines 11 to 104)\<close>

text \<open>
  The iteration order of \<open>std::unordered_set\<close> is not specified: \<open>unordered_set_order\<close>
  is the order in which the set built at line 16 is traversed. Erasing an element keeps
  the order of the others. Line 17 builds a vector of \<open>_nr_threads\<close> entries, which
  throws \<open>std::length_error\<close> for a negative \<open>_nr_threads\<close>, before anything is written.
  Without \<open>WITH_STATS\<close> the counter \<open>total_tests\<close> stays 0. The loop returns the state
  together with the final value of \<open>level\<close>.
\<close>

definition build_graph ::
  "(nat list \<Rightarrow> nat list) \<Rightarrow> verdict \<Rightarrow> pc_algorithm \<Rightarrow> error + pc_algorithm" where
  "build_graph unordered_set_order verdict s =
     (let nodes_to_be_tested = unordered_set_order [0..<nr_variables s] in
      if nr_threads s < 0 then Inl LengthError
      else
        (let s0 = s\<lparr> cout := cout s @ [Str ''Starting to fill test_queue'', Endl] \<rparr>
         in case level_loop verdict 1 nodes_to_be_tested s0 of
              Inl e \<Rightarrow> Inl e
            | Inr (s', level) \<Rightarrow>
                Inr (s'\<lparr> cout := cout s' @
                          [Str ''Total independence tests made: '', Num 0, Endl] \<rparr>)))"

subsection \<open>build_correlation_matrix (lines 114 to 143)\<close>

text \<open>
  Modelled from the spec: the macro \<open>rep\<close> (skeleton.h is not part of the sources).
  Following section 4.6 of the specification, where the loops of the correlation phase
  and of level 0 visit every pair of variables once, \<open>rep(i, n)\<close> runs \<open>i\<close> through
  \<open>0, \<dots>, n - 1\<close> in ascending order.

  The macro \<open>STRIDE\<close> of the same header is a parameter. The library function
  \<open>gsl_stats_correlation\<close> and the method \<open>IndepTestGauss::test\<close> are parameters too:
  \<open>gsl_stats_correlation\<close> receives the \<open>n\<close> entries it reads from each array, at
  the indices \<open>0, STRIDE, \<dots>, (n - 1) * STRIDE\<close>, and the test receives the test object
  (the sample count and the correlation matrix it was built from). A read outside a
  vector is undefined behaviour in the source and the error \<open>OutOfBoundsRead\<close> here.
\<close>

definition view_array :: "real list list \<Rightarrow> nat \<Rightarrow> nat \<Rightarrow> nat \<Rightarrow> error + real list" where
  "view_array data i stride n =
     (if i < length data \<and> (n = 0 \<or> (n - 1) * stride < length (data ! i))
      then Inr (map (\<lambda>k. data ! i ! (k * stride)) [0..<n])
      else Inl OutOfBoundsRead)"

definition mat_set :: "matrix \<Rightarrow> nat \<Rightarrow> nat \<Rightarrow> real \<Rightarrow> matrix" where
  "mat_set C i j v = C[i := (C ! i)[j := v]]"

primrec correlation_row ::
  "(real list \<Rightarrow> real list \<Rightarrow> real) \<Rightarrow> nat \<Rightarrow> real list list \<Rightarrow> nat \<Rightarrow> nat \<Rightarrow> nat list \<Rightarrow>
   matrix \<Rightarrow> error + matrix" where
  "correlation_row gsl_stats_correlation stride data n i [] C = Inr C"
| "correlation_row gsl_stats_correlation stride data n i (j # js) C =
     (case view_array data i stride n of
        Inl e \<Rightarrow> Inl e
      | Inr gsl_x \<Rightarrow>
          (case view_array data j stride n of
             Inl e \<Rightarrow> Inl e
           | Inr gsl_y \<Rightarrow>
               (let pearson = gsl_stats_correlation gsl_x gsl_y
                in correlation_row gsl_stats_correlation stride data n i js
                     (mat_set (mat_set C j i pearson) i j pearson))))"

primrec correlation_rows ::
  "(real list \<Rightarrow> real list \<Rightarrow> real) \<Rightarrow> nat \<Rightarrow> real list list \<Rightarrow> nat \<Rightarrow> nat list \<Rightarrow>
   matrix \<Rightarrow> error + matrix" where
  "correlation_rows gsl_stats_correlation stride data n [] C = Inr C"
| "correlation_rows gsl_stats_correlation stride data n (i # is) C =
     (case correlation_row gsl_stats_correlation stride data n i [0..<i] C of
        Inl e \<Rightarrow> Inl e
      | Inr C' \<Rightarrow> correlation_rows gsl_stats_correlation stride data n is C')"

type_synonym indep_test = "int \<times> matrix \<Rightarrow> nat \<Rightarrow> nat \<Rightarrow> nat list \<Rightarrow> real"

text \<open>The level-0 loops of lines 132 to 140, on \<open>deleted_edges\<close> and the graph.\<close>

primrec level0_row ::
  "indep_test \<Rightarrow> int \<times> matrix \<Rightarrow> real \<Rightarrow> nat \<Rightarrow> nat list \<Rightarrow> int \<times> graph \<Rightarrow> int \<times> graph" where
  "level0_row test gt a i [] acc = acc"
| "level0_row test gt a i (j # js) acc =
     level0_row test gt a i js
       (case acc of (deleted_edges, g) \<Rightarrow>
          (let pearson = test gt i j []
           in if pearson \<ge> a then (deleted_edges + 2, deleteEdge g i j)
              else (deleted_edges, g)))"

primrec level0_rows ::
  "indep_test \<Rightarrow> int \<times> matrix \<Rightarrow> real \<Rightarrow> nat list \<Rightarrow> int \<times> graph \<Rightarrow> int \<times> graph" where
  "level0_rows test gt a [] acc = acc"
| "level0_rows test gt a (i # is) acc = level0_rows test gt a is (level0_row test gt a i [0..<i] acc)"

definition build_correlation_matrix ::
  "(real list \<Rightarrow> real list \<Rightarrow> real) \<Rightarrow> nat \<Rightarrow> indep_test \<Rightarrow> real list list \<Rightarrow> pc_algorithm \<Rightarrow>
   error + pc_algorithm" where
  "build_correlation_matrix gsl_stats_correlation STRIDE test data s =
     (if data = [] then Inl OutOfBoundsRead
      else
        (let n = length (data ! 0)
         in case correlation_rows gsl_stats_correlation STRIDE data n [0..<nr_variables s]
                   (correlation s) of
              Inl e \<Rightarrow> Inl e
            | Inr C \<Rightarrow>
                (let gt = (nr_samples s, C)
                 in case level0_rows test gt (alpha s) [0..<nr_variables s] (0, graph s) of
                      (deleted_edges, g) \<Rightarrow>
                        Inr (s\<lparr> correlation := C, gauss_test := gt, graph := g,
                                working_graph := Some g,
                                cout := cout s @ [Str ''Deleted edges: '', Num deleted_edges, Endl] \<rparr>))))"

section \<open>Summaries used in the proofs\<close>

text \<open>
  The instructions one vertex enqueues at a level, those a whole pass over
  \<open>nodes_to_be_tested\<close> enqueues, and the vertices the pass puts into \<open>nodes_to_delete\<close>.
\<close>

definition instructions_of :: "graph \<Rightarrow> int \<Rightarrow> nat \<Rightarrow> TestInstruction list" where
  "instructions_of g level x =
     map (Pair x) (filter (\<lambda>y. y < x \<or> getNeighbourCount g y - 1 < level) (getNeighbours g x))"

definition level_instructions :: "graph \<Rightarrow> int \<Rightarrow> nat list \<Rightarrow> TestInstruction list" where
  "level_instructions g level nodes =
     concat (map (\<lambda>x. if getNeighbourCount g x - 1 \<ge> level then instructions_of g level x else []) nodes)"

definition enqueue_all :: "int \<Rightarrow> TestInstruction list \<Rightarrow> pc_algorithm \<Rightarrow> pc_algorithm" where
  "enqueue_all level q s =
     s\<lparr> work_queue := work_queue s @ q, trace := trace s @ map (EvEnqueue level) q \<rparr>"

definition nodes_to_delete_of :: "graph \<Rightarrow> int \<Rightarrow> nat list \<Rightarrow> nat list" where
  "nodes_to_delete_of g level nodes = filter (\<lambda>x. \<not> level \<le> getNeighbourCount g x - 1) nodes"

text \<open>The state at the end of a level that has run tests.\<close>

definition after_level :: "verdict \<Rightarrow> int \<Rightarrow> nat list \<Rightarrow> pc_algorithm \<Rightarrow> pc_algorithm" where
  "after_level verdict level nodes s =
     (let q = level_instructions (graph s) level nodes;
          s3 = run_workers verdict level
                 ((enqueue_all level q s)
                    \<lparr> cout := cout s @ [Str ''Queued all '', Num (int (length q)),
                                         Str '' pairs, waiting for results..'', Endl] \<rparr>)
      in s3\<lparr> cout := cout s3 @ [Str ''All tests done for level '', Num level, Chr CHR ''.'', Endl],
             graph := the (working_graph s3) \<rparr>)"

text \<open>The quantity that decreases, relative to the level, from one level to the next.\<close>

definition deg_bound :: "nat list \<Rightarrow> pc_algorithm \<Rightarrow> nat" where
  "deg_bound nodes s =
     sum_list (map (\<lambda>x. max (length (graph s ! x))
                          (case working_graph s of None \<Rightarrow> 0 | Some w \<Rightarrow> length (w ! x))) nodes)"

text \<open>
  What holds whenever the level loop is entered in a run that started with
  \<open>build_correlation_matrix\<close>: both graphs are well formed and equal,
  \<open>nodes_to_be_tested\<close> has no duplicates and holds vertices only, among them every
  vertex that still has enough neighbours for the level.
\<close>

definition level_inv :: "nat \<Rightarrow> int \<Rightarrow> nat list \<Rightarrow> pc_algorithm \<Rightarrow> bool" where
  "level_inv p level nodes s \<longleftrightarrow>
     wf_graph p (graph s) \<and> working_graph s = Some (graph s) \<and>
     distinct nodes \<and> list_all (\<lambda>v. v < p) nodes \<and>
     list_all (\<lambda>v. level \<le> getNeighbourCount (graph s) v - 1 \<longrightarrow> v \<in> set nodes) [0..<p]"

text \<open>
  The level of an event, and the traces in which no instruction of a level is enqueued
  after a worker of that level has been created.
\<close>

primrec event_level :: "event \<Rightarrow> int" where
  "event_level (EvEnqueue l ti) = l"
| "event_level (EvSpawn l k) = l"
| "event_level (EvJoin l k) = l"

primrec no_late_enqueue :: "event list \<Rightarrow> bool" where
  "no_late_enqueue [] = True"
| "no_late_enqueue (e # es) =
     ((case e of EvSpawn l k \<Rightarrow> list_all (\<lambda>e'. case e' of EvEnqueue l' ti \<Rightarrow> l' \<noteq> l | _ \<Rightarrow> True) es
               | _ \<Rightarrow> True) \<and>
      no_late_enqueue es)"

text \<open>
  When the reads of row \<open>i\<close> are within bounds, the entries read, and the two
  assignments of line 126.
\<close>

definition view_ok :: "real list list \<Rightarrow> nat \<Rightarrow> nat \<Rightarrow> nat \<Rightarrow> bool" where
  "view_ok data i stride n \<longleftrightarrow> i < length data \<and> (n = 0 \<or> (n - 1) * stride < length (data ! i))"

definition row_view :: "real list list \<Rightarrow> nat \<Rightarrow> nat \<Rightarrow> nat \<Rightarrow> real list" where
  "row_view data i stride n = map (\<lambda>k. data ! i ! (k * stride)) [0..<n]"

definition set_pair :: "(nat \<Rightarrow> nat \<Rightarrow> real) \<Rightarrow> nat \<Rightarrow> nat \<Rightarrow> matrix \<Rightarrow> matrix" where
  "set_pair v i j C = mat_set (mat_set C j i (v i j)) i j (v i j)"

text \<open>A matrix with \<open>p\<close> rows and \<open>p\<close> columns.\<close>

definition square :: "nat \<Rightarrow> matrix \<Rightarrow> bool" where
  "square p C \<longleftrightarrow> length C = p \<and> list_all (\<lambda>row. length row = p) C"

text \<open>
  The lines that one level writes when its pass has enqueued \<open>queue_size\<close> pairs (lines
  48 and 87, or line 90), and the lines of consecutive levels.
\<close>

definition level_lines :: "int \<Rightarrow> int \<Rightarrow> cout_item list" where
  "level_lines level queue_size =
     (if queue_size \<noteq> 0 then
        [Str ''Queued all '', Num queue_size, Str '' pairs, waiting for results..'', Endl,
         Str ''All tests done for level '', Num level, Chr CHR ''.'', Endl]
      else [Str ''No tests left for level '', Num level, Chr CHR ''.'', Endl])"

primrec levels_lines :: "int \<Rightarrow> int list \<Rightarrow> cout_item list" where
  "levels_lines level [] = []"
| "levels_lines level (q # qs) = level_lines level q @ levels_lines (level + 1) qs"

text \<open>
  The actions of the engine thread in one level whose pass enqueues the instructions
  \<open>q\<close>, with \<open>K\<close> threads (none when \<open>q\<close> is empty: the loop is left at line 92), and
  those of consecutive levels.
\<close>

definition level_events :: "int \<Rightarrow> int \<Rightarrow> TestInstruction list \<Rightarrow> event list" where
  "level_events K level q =
     (if q \<noteq> [] then
        map (EvEnqueue level) q @ map (EvSpawn level) [0..<nat K] @ map (EvJoin level) [0..<nat K]
      else [])"

primrec levels_events :: "int \<Rightarrow> int \<Rightarrow> TestInstruction list list \<Rightarrow> event list" where
  "levels_events K level [] = []"
| "levels_events K level (q # qss) = level_events K level q @ levels_events K (level + 1) qss"

section \<open>Runs on concrete inputs\<close>

text \<open>Sequencing of fallible operations: the second runs on the result of the first.\<close>

definition and_then :: "error + 'a \<Rightarrow> ('a \<Rightarrow> error + 'b) \<Rightarrow> error + 'b" where
  "and_then r f = (case r of Inl e \<Rightarrow> Inl e | Inr x \<Rightarrow> f x)"

text \<open>
  Values of the parameters: the iteration order that follows the insertions; workers
  whose tests never reject, and workers that reject for the instruction \<open>(2, 1)\<close> only,
  with the conditioning set \<open>{3}\<close>; a correlation that is always 0, and the sum of
  products; a level-0 test with p-value 0 throughout, and one with p-value 1 for the
  pairs \<open>{0, 2}\<close>, \<open>{0, 3}\<close> and \<open>{1, 3}\<close> and 0 for every other pair, which on four
  variables leaves the chain 0 - 1 - 2 - 3.
\<close>

definition insertion_order :: "nat list \<Rightarrow> nat list" where
  "insertion_order xs = xs"

definition never_rejects :: verdict where
  "never_rejects level g x y = None"

definition rejects_2_1 :: verdict where
  "rejects_2_1 level g x y = (if (x, y) = (2, 1) then Some [3] else None)"

definition zero_correlation :: "real list \<Rightarrow> real list \<Rightarrow> real" where
  "zero_correlation xs ys = 0"

definition sum_of_products :: "real list \<Rightarrow> real list \<Rightarrow> real" where
  "sum_of_products xs ys = sum_list (map2 (*) xs ys)"

definition p_value_zero :: indep_test where
  "p_value_zero gt i j S = 0"

definition p_value_chain :: indep_test where
  "p_value_chain gt i j S = (if (i, j) \<in> {(2, 0), (3, 0), (3, 1)} then 1 else 0)"

text \<open>
  A first run, on four variables and four samples, in which level 0 leaves the chain
  and level 1 deletes the edge \<open>{1, 2}\<close>: the constructed instance, the state after
  \<open>build_correlation_matrix\<close>, the states after the first and the second iteration of the
  level loop, and the state after \<open>build_graph\<close>.
\<close>

definition example_data :: "real list list" where
  "example_data = [[1, 2, 3, 4], [2, 1, 4, 3], [1, 3, 2, 4], [4, 3, 2, 1]]"

definition example_instance :: pc_algorithm where
  "example_instance = projr (PCAlgorithm 4 (1/20) 4 2)"

definition example_no_variables :: pc_algorithm where
  "example_no_variables = projr (PCAlgorithm 0 (1/20) 10 1)"

definition example_negative_threads :: pc_algorithm where
  "example_negative_threads = projr (PCAlgorithm 4 (1/20) 10 (- 1))"

definition example_level0 :: pc_algorithm where
  "example_level0 =
     projr (build_correlation_matrix zero_correlation 1 p_value_chain example_data example_instance)"

definition example_level1 :: pc_algorithm where
  "example_level1 =
     (case level_body rejects_2_1 1 [0, 1, 2, 3] example_level0 of
        Inr (Continue s nodes) \<Rightarrow> s | _ \<Rightarrow> example_level0)"

definition example_level2 :: pc_algorithm where
  "example_level2 =
     (case level_body rejects_2_1 2 [1, 2] example_level1 of
        Inr (Break s) \<Rightarrow> s | _ \<Rightarrow> example_level1)"

definition example_final :: pc_algorithm where
  "example_final = projr (build_graph insertion_order rejects_2_1 example_level0)"

text \<open>
  A second run on the same instance, in which nothing is ever deleted and the graph
  stays complete: the state after \<open>build_correlation_matrix\<close> and the state after
  \<open>build_graph\<close>.
\<close>

definition example_complete :: pc_algorithm where
  "example_complete =
     projr (build_correlation_matrix zero_correlation 1 p_value_zero example_data example_instance)"

definition example_complete_final :: pc_algorithm where
  "example_complete_final = projr (build_graph insertion_order never_rejects example_complete)"

text \<open>
  A third run on the same instance, with the sum of products in the place of
  \<open>gsl_stats_correlation\<close>: the state after \<open>build_correlation_matrix\<close> and the state
  after \<open>build_graph\<close>.
\<close>

definition example_products :: pc_algorithm where
  "example_products =
     projr (build_correlation_matrix sum_of_products 1 p_value_zero example_data example_instance)"

definition example_products_final :: pc_algorithm where
  "example_products_final = projr (build_graph insertion_order never_rejects example_products)"

section \<open>The queue-filling pass in closed form\<close>

lemma enqueue_all_Nil [simp]: "enqueue_all level [] s = s"
  by (simp add: enqueue_all_def)

lemma enqueue_all_append:
  "enqueue_all level q2 (enqueue_all level q1 s) = enqueue_all level (q1 @ q2) s"
  by (simp add: enqueue_all_def)

lemma enqueue_all_fields [simp]:
  "graph (enqueue_all level q s) = graph s"
  "working_graph (enqueue_all level q s) = working_graph s"
  "nr_variables (enqueue_all level q s) = nr_variables s"
  "nr_threads (enqueue_all level q s) = nr_threads s"
  "separation_matrix (enqueue_all level q s) = separation_matrix s"
  "correlation (enqueue_all level q s) = correlation s"
  "cout (enqueue_all level q s) = cout s"
  "work_queue (enqueue_all level q s) = work_queue s @ q"
  "trace (enqueue_all level q s) = trace s @ map (EvEnqueue level) q"
  by (simp_all add: enqueue_all_def)

lemma enqueue_neighbours_eq:
  "enqueue_neighbours level x adj (s, n) =
     (enqueue_all level (map (Pair x) (filter (\<lambda>y. y < x \<or> getNeighbourCount (graph s) y - 1 < level) adj)) s,
      n + int (length (filter (\<lambda>y. y < x \<or> getNeighbourCount (graph s) y - 1 < level) adj)))"
proof (induction adj arbitrary: s n)
  case Nil
  show ?case by simp
next
  case (Cons y adj)
  have e: "enqueue level (x, y) s = enqueue_all level [(x, y)] s"
    by (simp add: enqueue_def enqueue_all_def)
  show ?case
    by (simp add: Cons.IH e enqueue_all_append)
qed

lemma fill_queue_eq:
  "fill_queue level nodes (s, n, d) =
     (enqueue_all level (level_instructions (graph s) level nodes) s,
      n + int (length (level_instructions (graph s) level nodes)),
      d @ filter (\<lambda>x. \<not> level \<le> getNeighbourCount (graph s) x - 1) nodes)"
proof (induction nodes arbitrary: s n d)
  case Nil
  show ?case by (simp add: level_instructions_def)
next
  case (Cons x nodes)
  show ?case
    by (simp add: Cons.IH enqueue_neighbours_eq level_instructions_def instructions_of_def
        enqueue_all_append)
qed

section \<open>Workers only shorten neighbour sequences\<close>

lemma deleteEdge_length_le: "length (deleteEdge g i j ! x) \<le> length (g ! x)"
proof -
  have a: "length (g[i := removeAll j (g ! i)] ! x) \<le> length (g ! x)" for g :: graph and i j x
  proof (cases "x = i \<and> i < length g")
    case True
    then show ?thesis by (simp add: removeAll_filter_not_eq)
  next
    case False
    then have "g[i := removeAll j (g ! i)] ! x = g ! x"
      by (cases "x = i") (auto simp: list_update_beyond)
    then show ?thesis by simp
  qed
  show ?thesis
    unfolding deleteEdge_def Let_def
    using a [of "g[i := removeAll j (g ! i)]" j i x] a [of g i j x] by linarith
qed

lemma execute_test_length_le:
  "execute_test verdict level frozen p q (w, sep) = (w', sep') \<Longrightarrow> length (w' ! x) \<le> length (w ! x)"
proof (induction q arbitrary: w sep)
  case Nil
  then show ?case by simp
next
  case (Cons ti q)
  show ?case
  proof (cases "verdict level frozen (fst ti) (snd ti)")
    case None
    with Cons show ?thesis by simp
  next
    case (Some S)
    with Cons.prems have
      "execute_test verdict level frozen p q
         (deleteEdge w (fst ti) (snd ti),
          set_if_empty (set_if_empty sep (fst ti * p + snd ti) S) (snd ti * p + fst ti) S) = (w', sep')"
      by simp
    from Cons.IH [OF this] deleteEdge_length_le [of w "fst ti" "snd ti" x]
    show ?thesis by linarith
  qed
qed

lemma run_workers_fields [simp]:
  "graph (run_workers verdict level s) = graph s"
  "nr_variables (run_workers verdict level s) = nr_variables s"
  "nr_threads (run_workers verdict level s) = nr_threads s"
  "correlation (run_workers verdict level s) = correlation s"
  "cout (run_workers verdict level s) = cout s"
  by (simp_all add: run_workers_def Let_def split: option.splits prod.splits)

lemma run_workers_working_None:
  "working_graph s = None \<Longrightarrow> working_graph (run_workers verdict level s) = None"
  by (simp add: run_workers_def Let_def)

lemma run_workers_working_Some:
  assumes "working_graph s = Some w"
  shows "\<exists>w'. working_graph (run_workers verdict level s) = Some w' \<and>
              (\<forall>x. length (w' ! x) \<le> length (w ! x))"
proof (cases "nr_threads s \<le> 0")
  case True
  with assms show ?thesis by (simp add: run_workers_def Let_def)
next
  case False
  obtain w' sep' where e:
    "execute_test verdict level (graph s) (nr_variables s) (work_queue s) (w, separation_matrix s) = (w', sep')"
    by (cases "execute_test verdict level (graph s) (nr_variables s) (work_queue s) (w, separation_matrix s)")
  from False assms e have "working_graph (run_workers verdict level s) = Some w'"
    by (simp add: run_workers_def Let_def)
  with execute_test_length_le [OF e] show ?thesis by simp
qed

section \<open>Termination of the level loop\<close>

lemma level_instructions_nonempty:
  "level_instructions g level nodes \<noteq> [] \<Longrightarrow> \<exists>x\<in>set nodes. level \<le> getNeighbourCount g x - 1"
  by (auto simp: level_instructions_def split: if_splits)

lemma level_body_Continue:
  assumes "level_body verdict level nodes s = Inr (Continue s' nodes')"
  shows "\<exists>w w'. working_graph s = Some w \<and> working_graph s' = Some w' \<and> graph s' = w' \<and>
           (\<forall>x. length (w' ! x) \<le> length (w ! x)) \<and>
           nodes' = fold removeAll (nodes_to_delete_of (graph s) level nodes) nodes \<and>
           level_instructions (graph s) level nodes \<noteq> []"
proof (cases "working_graph s")
  case None
  then have "working_graph (run_workers verdict level
      ((enqueue_all level (level_instructions (graph s) level nodes) s)
        \<lparr>cout := c\<rparr>)) = None" for c
    by (simp add: run_workers_working_None)
  with assms None show ?thesis
    by (simp add: level_body_def fill_queue_eq Let_def split: if_splits)
next
  case (Some w)
  let ?s2 = "(enqueue_all level (level_instructions (graph s) level nodes) s)
        \<lparr>cout := cout s @ [Str ''Queued all '', Num (int (length (level_instructions (graph s) level nodes))),
                           Str '' pairs, waiting for results..'', Endl]\<rparr>"
  have "working_graph ?s2 = Some w" using Some by simp
  from run_workers_working_Some [OF this, of verdict level]
  obtain w' where w': "working_graph (run_workers verdict level ?s2) = Some w'"
    "\<forall>x. length (w' ! x) \<le> length (w ! x)" by blast
  from assms Some w' show ?thesis
    by (auto simp: level_body_def fill_queue_eq Let_def nodes_to_delete_of_def split: if_splits)
qed

lemma sum_list_fold_removeAll_le:
  "sum_list (map f (fold removeAll ds xs)) \<le> sum_list (map (f :: nat \<Rightarrow> nat) xs)"
proof (induction ds arbitrary: xs)
  case Nil
  show ?case by simp
next
  case (Cons d ds)
  have "sum_list (map f (removeAll d xs)) \<le> sum_list (map f xs)"
    by (simp add: removeAll_filter_not_eq sum_list_filter_le_nat)
  with Cons.IH [of "removeAll d xs"] show ?case by simp
qed

lemma level_loop_decreases:
  assumes "level_body verdict level nodes s = Inr (Continue s' nodes')"
  shows "nat (int (deg_bound nodes' s') - (level + 1)) < nat (int (deg_bound nodes s) - level)"
proof -
  from level_body_Continue [OF assms] obtain w w' where
    w: "working_graph s = Some w" "working_graph s' = Some w'" "graph s' = w'"
       "\<forall>x. length (w' ! x) \<le> length (w ! x)"
       "nodes' = fold removeAll (nodes_to_delete_of (graph s) level nodes) nodes"
       "level_instructions (graph s) level nodes \<noteq> []" by blast
  from level_instructions_nonempty [OF w(6)] obtain x where
    x: "x \<in> set nodes" "level \<le> getNeighbourCount (graph s) x - 1" by blast
  let ?f = "\<lambda>x. max (length (graph s ! x)) (length (w ! x))"
  have "?f x \<le> sum_list (map ?f nodes)"
    using x(1) by (intro member_le_sum_list) auto
  then have big: "level + 1 \<le> int (deg_bound nodes s)"
    using x(2) w(1) by (simp add: deg_bound_def getNeighbourCount_def)
  have "deg_bound nodes' s' = sum_list (map (\<lambda>x. length (w' ! x)) nodes')"
    using w(2,3) by (simp add: deg_bound_def)
  also have "\<dots> \<le> sum_list (map (\<lambda>x. length (w' ! x)) nodes)"
    unfolding w(5) by (rule sum_list_fold_removeAll_le)
  also have "\<dots> \<le> sum_list (map ?f nodes)"
    using w(4) by (intro sum_list_mono) (simp add: max.coboundedI2)
  also have "\<dots> = deg_bound nodes s"
    using w(1) by (simp add: deg_bound_def)
  finally have "deg_bound nodes' s' \<le> deg_bound nodes s" .
  with big show ?thesis by linarith
qed

termination level_loop
  by (relation "measure (\<lambda>(verdict, level, nodes, s). nat (int (deg_bound nodes s) - level))")
     (auto dest: level_loop_decreases)

declare level_loop.simps [simp del]

lemma level_loop_Nil: "level_loop verdict level [] s = Inr (s, level)"
  by (subst level_loop.simps) simp

lemma level_loop_Cons:
  "nodes \<noteq> [] \<Longrightarrow>
   level_loop verdict level nodes s =
     (case level_body verdict level nodes s of
        Inl e \<Rightarrow> Inl e
      | Inr (Break s') \<Rightarrow> Inr (s', level)
      | Inr (Continue s' nodes') \<Rightarrow> level_loop verdict (level + 1) nodes' s')"
  by (subst level_loop.simps) simp

section \<open>One level in closed form\<close>

lemma level_body_None:
  "working_graph s = None \<Longrightarrow> level_body verdict level nodes s = Inl NullPointerDereference"
  by (simp add: level_body_def fill_queue_eq Let_def run_workers_working_None)

lemma level_body_Some:
  assumes "working_graph s = Some w"
  shows "level_body verdict level nodes s =
     (if level_instructions (graph s) level nodes = []
      then Inr (Break (s\<lparr> cout := cout s @ [Str ''No tests left for level '', Num level, Chr CHR ''.'', Endl],
                          graph := w \<rparr>))
      else Inr (Continue (after_level verdict level nodes s)
                  (fold removeAll (nodes_to_delete_of (graph s) level nodes) nodes)))"
proof (cases "level_instructions (graph s) level nodes = []")
  case True
  with assms show ?thesis
    by (simp add: level_body_def fill_queue_eq Let_def)
next
  case False
  let ?s2 = "(enqueue_all level (level_instructions (graph s) level nodes) s)
        \<lparr>cout := cout s @ [Str ''Queued all '', Num (int (length (level_instructions (graph s) level nodes))),
                           Str '' pairs, waiting for results..'', Endl]\<rparr>"
  have "working_graph ?s2 = Some w" using assms by simp
  from run_workers_working_Some [OF this, of verdict level]
  obtain w' where w': "working_graph (run_workers verdict level ?s2) = Some w'" by blast
  with False show ?thesis
    by (simp add: level_body_def fill_queue_eq Let_def after_level_def nodes_to_delete_of_def)
qed

lemma run_workers_trace:
  "trace (run_workers verdict level s) =
     trace s @ map (EvSpawn level) [0..<nat (nr_threads s)] @ map (EvJoin level) [0..<nat (nr_threads s)]"
  by (simp add: run_workers_def Let_def split: option.splits prod.splits)

lemma after_level_fields:
  "nr_variables (after_level verdict level nodes s) = nr_variables s"
  "nr_threads (after_level verdict level nodes s) = nr_threads s"
  "correlation (after_level verdict level nodes s) = correlation s"
  "cout (after_level verdict level nodes s) =
     cout s @ [Str ''Queued all '', Num (int (length (level_instructions (graph s) level nodes))),
               Str '' pairs, waiting for results..'', Endl,
               Str ''All tests done for level '', Num level, Chr CHR ''.'', Endl]"
  "trace (after_level verdict level nodes s) =
     trace s @ map (EvEnqueue level) (level_instructions (graph s) level nodes) @
       map (EvSpawn level) [0..<nat (nr_threads s)] @ map (EvJoin level) [0..<nat (nr_threads s)]"
  by (simp_all add: after_level_def Let_def run_workers_trace)

lemma after_level_working:
  assumes "working_graph s = Some w"
  shows "\<exists>w'. working_graph (after_level verdict level nodes s) = Some w' \<and>
              graph (after_level verdict level nodes s) = w' \<and>
              (\<forall>x. length (w' ! x) \<le> length (w ! x))"
proof -
  let ?s2 = "(enqueue_all level (level_instructions (graph s) level nodes) s)
        \<lparr>cout := cout s @ [Str ''Queued all '', Num (int (length (level_instructions (graph s) level nodes))),
                           Str '' pairs, waiting for results..'', Endl]\<rparr>"
  have "working_graph ?s2 = Some w" using assms by simp
  from run_workers_working_Some [OF this, of verdict level]
  show ?thesis by (auto simp: after_level_def Let_def)
qed

section \<open>Reasoning about the level loop\<close>

text \<open>A Hoare-style rule for the level loop.\<close>

lemma level_loop_rule:
  assumes "level_loop verdict level nodes s = Inr (s', level')"
    and "I level nodes s"
    and "\<And>l ns t t' ns'. I l ns t \<Longrightarrow> ns \<noteq> [] \<Longrightarrow>
            level_body verdict l ns t = Inr (Continue t' ns') \<Longrightarrow> I (l + 1) ns' t'"
    and "\<And>l ns t t'. I l ns t \<Longrightarrow> ns \<noteq> [] \<Longrightarrow>
            level_body verdict l ns t = Inr (Break t') \<Longrightarrow> R t' l"
    and "\<And>l t. I l [] t \<Longrightarrow> R t l"
  shows "R s' level'"
  using assms
proof (induction verdict level nodes s rule: level_loop.induct)
  case (1 verdict level nodes s)
  show ?case
  proof (cases "nodes = []")
    case True
    with "1.prems"(1,2) "1.prems"(5) [of level s] show ?thesis
      by (simp add: level_loop_Nil level_loop_Cons)
  next
    case False
    show ?thesis
    proof (cases "level_body verdict level nodes s")
      case (Inl e)
      with False "1.prems"(1) show ?thesis
        by (simp add: level_loop_Nil level_loop_Cons)
    next
      case (Inr st)
      show ?thesis
      proof (cases st)
        case (Break t')
        have b: "level_body verdict level nodes s = Inr (Break t')"
          using Inr Break by simp
        have "s' = t'" "level' = level"
          using "1.prems"(1) False b
          by (simp_all add: level_loop_Nil level_loop_Cons)
        with "1.prems"(4) [OF "1.prems"(2) False b] show ?thesis by simp
      next
        case (Continue t' ns')
        have b: "level_body verdict level nodes s = Inr (Continue t' ns')"
          using Inr Continue by simp
        have i: "I (level + 1) ns' t'"
          using "1.prems"(3) [OF "1.prems"(2) False b] .
        have l: "level_loop verdict (level + 1) ns' t' = Inr (s', level')"
          using "1.prems"(1) False b
          by (simp add: level_loop_Nil level_loop_Cons)
        show ?thesis
          using "1.IH" [OF False Inr Continue l i] "1.prems"(3,4,5) by blast
      qed
    qed
  qed
qed

text \<open>The loop returns whenever the working graph is not the null pointer.\<close>

lemma level_loop_returns:
  "working_graph s \<noteq> None \<Longrightarrow> \<exists>r. level_loop verdict level nodes s = Inr r"
proof (induction verdict level nodes s rule: level_loop.induct)
  case (1 verdict level nodes s)
  from "1.prems" obtain w where w: "working_graph s = Some w" by blast
  show ?case
  proof (cases "nodes = []")
    case True
    then show ?thesis by (simp add: level_loop_Nil level_loop_Cons)
  next
    case False
    show ?thesis
    proof (cases "level_instructions (graph s) level nodes = []")
      case True
      with False w show ?thesis
        by (simp add: level_body_Some level_loop_Nil level_loop_Cons)
    next
      case q: False
      let ?t = "after_level verdict level nodes s"
      let ?ns = "fold removeAll (nodes_to_delete_of (graph s) level nodes) nodes"
      have b: "level_body verdict level nodes s = Inr (Continue ?t ?ns)"
        using w q by (simp add: level_body_Some)
      from after_level_working [OF w, of verdict level nodes]
      have "working_graph ?t \<noteq> None" by auto
      from "1.IH" [OF False b _ this] obtain r where
        "level_loop verdict (level + 1) ?ns ?t = Inr r" by auto
      with False b show ?thesis
        by (simp add: level_loop_Nil level_loop_Cons)
    qed
  qed
qed

lemma level_loop_null:
  "working_graph s = None \<Longrightarrow> nodes \<noteq> [] \<Longrightarrow>
   level_loop verdict level nodes s = Inl NullPointerDereference"
  by (simp add: level_body_None level_loop_Nil level_loop_Cons)

lemma level_body_BreakE:
  assumes "level_body verdict l ns t = Inr (Break t')"
  shows "\<exists>w. working_graph t = Some w \<and> level_instructions (graph t) l ns = [] \<and>
             t' = t\<lparr> cout := cout t @ [Str ''No tests left for level '', Num l, Chr CHR ''.'', Endl],
                      graph := w \<rparr>"
proof (cases "working_graph t")
  case None
  with assms show ?thesis by (simp add: level_body_None)
next
  case (Some w)
  with assms show ?thesis by (simp add: level_body_Some split: if_splits)
qed

lemma level_body_ContinueE:
  assumes "level_body verdict l ns t = Inr (Continue t' ns')"
  shows "\<exists>w. working_graph t = Some w \<and> level_instructions (graph t) l ns \<noteq> [] \<and>
             t' = after_level verdict l ns t \<and>
             ns' = fold removeAll (nodes_to_delete_of (graph t) l ns) ns"
proof (cases "working_graph t")
  case None
  with assms show ?thesis by (simp add: level_body_None)
next
  case (Some w)
  with assms show ?thesis by (simp add: level_body_Some split: if_splits)
qed

lemma build_graph_InrE:
  assumes "build_graph order verdict s = Inr s'"
  shows "\<exists>t l. level_loop verdict 1 (order [0..<nr_variables s])
                  (s\<lparr> cout := cout s @ [Str ''Starting to fill test_queue'', Endl] \<rparr>) = Inr (t, l) \<and>
               s' = t\<lparr> cout := cout t @ [Str ''Total independence tests made: '', Num 0, Endl] \<rparr>"
  using assms by (auto simp: build_graph_def Let_def split: if_splits sum.splits prod.splits)

lemma build_graph_threads:
  "build_graph order verdict s = Inr s' \<Longrightarrow> 0 \<le> nr_threads s"
  by (auto simp: build_graph_def Let_def split: if_splits)

lemma build_graph_LengthError:
  "nr_threads s < 0 \<Longrightarrow> build_graph order verdict s = Inl LengthError"
  by (simp add: build_graph_def Let_def)

lemma build_correlation_matrix_InrE:
  assumes "build_correlation_matrix gsl stride test data s = Inr s'"
  shows "data \<noteq> [] \<and>
         (\<exists>C d g. correlation_rows gsl stride data (length (data ! 0)) [0..<nr_variables s] (correlation s) = Inr C \<and>
            level0_rows test (nr_samples s, C) (alpha s) [0..<nr_variables s] (0, graph s) = (d, g) \<and>
            s' = s\<lparr> correlation := C, gauss_test := (nr_samples s, C), graph := g,
                     working_graph := Some g,
                     cout := cout s @ [Str ''Deleted edges: '', Num d, Endl] \<rparr>)"
  using assms
  by (auto simp: build_correlation_matrix_def Let_def split: if_splits sum.splits prod.splits)

section \<open>When build_graph returns\<close>

lemma build_graph_null:
  assumes "working_graph s = None" and "order [0..<nr_variables s] \<noteq> []"
    and "0 \<le> nr_threads s"
  shows "build_graph order verdict s = Inl NullPointerDereference"
proof -
  have "level_loop verdict 1 (order [0..<nr_variables s])
          (s\<lparr> cout := cout s @ [Str ''Starting to fill test_queue'', Endl] \<rparr>) =
        Inl NullPointerDereference"
    using assms by (intro level_loop_null) simp_all
  with assms(3) show ?thesis by (simp add: build_graph_def Let_def)
qed

lemma build_graph_returns:
  assumes "working_graph s \<noteq> None" and "0 \<le> nr_threads s"
  shows "\<exists>s'. build_graph order verdict s = Inr s'"
proof -
  have "working_graph (s\<lparr> cout := cout s @ [Str ''Starting to fill test_queue'', Endl] \<rparr>) \<noteq> None"
    using assms(1) by simp
  from level_loop_returns [OF this, of verdict 1 "order [0..<nr_variables s]"]
  obtain r where "level_loop verdict 1 (order [0..<nr_variables s])
          (s\<lparr> cout := cout s @ [Str ''Starting to fill test_queue'', Endl] \<rparr>) = Inr r" by blast
  with assms(2) show ?thesis by (cases r) (simp add: build_graph_def Let_def)
qed

section \<open>Promotion of the working graph\<close>

lemma run_workers_cout_irrelevant:
  "working_graph (run_workers verdict level (s\<lparr> cout := c \<rparr>)) =
   working_graph (run_workers verdict level s)"
  by (simp add: run_workers_def Let_def split: option.splits prod.splits)

lemma after_level_working_graph:
  "working_graph (after_level verdict level nodes s) =
   working_graph (run_workers verdict level (fst (fill_queue level nodes (s, 0, []))))"
  by (simp add: after_level_def Let_def fill_queue_eq run_workers_cout_irrelevant)

lemma level_loop_promoted:
  assumes "level_loop verdict level nodes s = Inr (s', level')"
    and "working_graph s = Some (graph s)"
  shows "working_graph s' = Some (graph s')"
proof (rule level_loop_rule [OF assms(1), where I = "\<lambda>l ns t. working_graph t = Some (graph t)"])
  show "working_graph s = Some (graph s)" by (rule assms(2))
next
  fix l ns t t' ns'
  assume "level_body verdict l ns t = Inr (Continue t' ns')"
  from level_body_ContinueE [OF this] obtain w where
    w: "working_graph t = Some w" "t' = after_level verdict l ns t" by blast
  from after_level_working [OF w(1), of verdict l ns] w(2)
  show "working_graph t' = Some (graph t')" by auto
next
  fix l ns t t'
  assume "level_body verdict l ns t = Inr (Break t')"
  from level_body_BreakE [OF this] show "working_graph t' = Some (graph t')" by auto
qed

section \<open>Well-formed graphs\<close>

lemma wf_graph_iff:
  "wf_graph p g \<longleftrightarrow>
     length g = p \<and>
     (\<forall>v<p. distinct (g ! v) \<and> (\<forall>u\<in>set (g ! v). u < p \<and> u \<noteq> v \<and> v \<in> set (g ! u)))"
  unfolding wf_graph_def list_all_iff Ball_def set_upt atLeastLessThan_iff
  by simp

lemma wf_graph_length: "wf_graph p g \<Longrightarrow> length g = p"
  unfolding wf_graph_iff by (rule conjunct1)

lemma wf_graph_distinct: "wf_graph p g \<Longrightarrow> v < p \<Longrightarrow> distinct (g ! v)"
  unfolding wf_graph_iff by blast

lemma wf_graph_edge:
  "wf_graph p g \<Longrightarrow> v < p \<Longrightarrow> u \<in> set (g ! v) \<Longrightarrow> u < p \<and> u \<noteq> v \<and> v \<in> set (g ! u)"
  unfolding wf_graph_iff by blast

lemma length_deleteEdge [simp]: "length (deleteEdge g i j) = length g"
  by (simp add: deleteEdge_def Let_def)

lemma deleteEdge_nth:
  assumes "a < length g"
  shows "deleteEdge g i j ! a =
           (if a = j then removeAll i (if a = i then removeAll j (g ! a) else g ! a)
            else if a = i then removeAll j (g ! a) else g ! a)"
  using assms by (simp add: deleteEdge_def Let_def nth_list_update)

lemma deleteEdge_set:
  assumes "a < length g"
  shows "set (deleteEdge g i j ! a) =
           {b \<in> set (g ! a). \<not> (a = i \<and> b = j) \<and> \<not> (a = j \<and> b = i)}"
  using assms by (auto simp: deleteEdge_nth)

lemma deleteEdge_distinct:
  assumes "a < length g" and "distinct (g ! a)"
  shows "distinct (deleteEdge g i j ! a)"
  using assms by (auto simp: deleteEdge_nth distinct_removeAll)

lemma wf_deleteEdge:
  assumes "wf_graph p g"
  shows "wf_graph p (deleteEdge g i j)"
proof -
  note len = wf_graph_length [OF assms]
    and d = wf_graph_distinct [OF assms]
    and e = wf_graph_edge [OF assms]
  show ?thesis
    unfolding wf_graph_iff
  proof (intro conjI allI impI ballI)
    show "length (deleteEdge g i j) = p" using len by simp
  next
    fix v assume "v < p"
    then show "distinct (deleteEdge g i j ! v)"
      using len d by (simp add: deleteEdge_distinct)
  next
    fix v u assume v: "v < p" and u: "u \<in> set (deleteEdge g i j ! v)"
    from u v len have u': "u \<in> set (g ! v)" "\<not> (v = i \<and> u = j)" "\<not> (v = j \<and> u = i)"
      by (simp_all add: deleteEdge_set)
    from e [OF v u'(1)] have f: "u < p" "u \<noteq> v" "v \<in> set (g ! u)" by simp_all
    show "u < p" by (rule f(1))
    show "u \<noteq> v" by (rule f(2))
    show "v \<in> set (deleteEdge g i j ! u)"
      using f u'(2,3) len by (auto simp: deleteEdge_set)
  qed
qed

lemma wf_execute_test:
  "wf_graph p w \<Longrightarrow> execute_test verdict level frozen n q (w, sep) = (w', sep') \<Longrightarrow> wf_graph p w'"
proof (induction q arbitrary: w sep)
  case Nil
  then show ?case by simp
next
  case (Cons ti q)
  show ?case
  proof (cases "verdict level frozen (fst ti) (snd ti)")
    case None
    with Cons show ?thesis by simp
  next
    case (Some S)
    with Cons.prems(2) have
      "execute_test verdict level frozen n q
         (deleteEdge w (fst ti) (snd ti),
          set_if_empty (set_if_empty sep (fst ti * n + snd ti) S) (snd ti * n + fst ti) S) = (w', sep')"
      by simp
    from Cons.IH [OF wf_deleteEdge [OF Cons.prems(1)] this] show ?thesis .
  qed
qed

lemma wf_Graph: "wf_graph p (Graph p)"
  unfolding wf_graph_iff Graph_def by simp


section \<open>Counting the instructions of a pass\<close>

lemma count_list_filter:
  "count_list (filter P xs) x = (if P x then count_list xs x else 0)"
  by (induction xs) auto

lemma count_list_map_Pair:
  "count_list (map (Pair x) ys) (a, b) = (if a = x then count_list ys b else 0)"
  by (induction ys) auto

lemma count_list_distinct:
  "distinct xs \<Longrightarrow> count_list xs x = (if x \<in> set xs then 1 else 0)"
  by (induction xs) auto

lemma count_instructions_of:
  "count_list (instructions_of g level x) (a, b) =
     (if a = x \<and> (b < a \<or> getNeighbourCount g b - 1 < level) then count_list (g ! a) b else 0)"
  by (simp add: instructions_of_def count_list_map_Pair count_list_filter getNeighbours_def)

lemma count_level_instructions:
  assumes "distinct nodes"
  shows "count_list (level_instructions g level nodes) (a, b) =
     (if a \<in> set nodes \<and> level \<le> getNeighbourCount g a - 1 \<and>
         (b < a \<or> getNeighbourCount g b - 1 < level)
      then count_list (g ! a) b else 0)"
  using assms
proof (induction nodes)
  case Nil
  show ?case by (simp add: level_instructions_def)
next
  case (Cons x nodes)
  have "level_instructions g level (x # nodes) =
          (if level \<le> getNeighbourCount g x - 1 then instructions_of g level x else []) @
          level_instructions g level nodes"
    by (simp add: level_instructions_def)
  with Cons show ?case
    by (auto simp: count_instructions_of)
qed

lemma work_queue_fill_queue:
  "work_queue (fst (fill_queue level nodes (s, n, d))) =
     work_queue s @ level_instructions (graph s) level nodes"
  by (simp add: fill_queue_eq)

section \<open>Bounding the levels\<close>

lemma run_workers_wf:
  assumes "working_graph s = Some w" and "wf_graph p w"
  shows "\<exists>w'. working_graph (run_workers verdict level s) = Some w' \<and> wf_graph p w' \<and>
              (\<forall>x. length (w' ! x) \<le> length (w ! x))"
proof (cases "nr_threads s \<le> 0")
  case True
  with assms show ?thesis by (simp add: run_workers_def Let_def)
next
  case False
  obtain w' sep' where e:
    "execute_test verdict level (graph s) (nr_variables s) (work_queue s) (w, separation_matrix s) = (w', sep')"
    by (cases "execute_test verdict level (graph s) (nr_variables s) (work_queue s) (w, separation_matrix s)")
  from False assms e have "working_graph (run_workers verdict level s) = Some w'"
    by (simp add: run_workers_def Let_def)
  with execute_test_length_le [OF e] wf_execute_test [OF assms(2) e] show ?thesis by simp
qed

lemma after_level_wf:
  assumes "working_graph s = Some w" and "wf_graph p w"
  shows "\<exists>w'. working_graph (after_level verdict level nodes s) = Some w' \<and>
              graph (after_level verdict level nodes s) = w' \<and> wf_graph p w' \<and>
              (\<forall>x. length (w' ! x) \<le> length (w ! x))"
proof -
  let ?s2 = "(enqueue_all level (level_instructions (graph s) level nodes) s)
        \<lparr>cout := cout s @ [Str ''Queued all '', Num (int (length (level_instructions (graph s) level nodes))),
                           Str '' pairs, waiting for results..'', Endl]\<rparr>"
  have "working_graph ?s2 = Some w" using assms by simp
  from run_workers_wf [OF this assms(2), of verdict level]
  show ?thesis by (auto simp: after_level_def Let_def)
qed

lemma set_fold_removeAll: "set (fold removeAll ds xs) = set xs - set ds"
  by (induction ds arbitrary: xs) auto

lemma distinct_fold_removeAll: "distinct xs \<Longrightarrow> distinct (fold removeAll ds xs)"
  by (induction ds arbitrary: xs) (auto simp: distinct_removeAll)





section \<open>Traces of the engine thread\<close>

lemma no_late_enqueue_Cons:
  "no_late_enqueue (e # es) \<longleftrightarrow>
     (\<forall>l k ti. e = EvSpawn l k \<longrightarrow> EvEnqueue l ti \<notin> set es) \<and> no_late_enqueue es"
proof -
  have "list_all (\<lambda>e'. case e' of EvEnqueue l' ti \<Rightarrow> l' \<noteq> l | _ \<Rightarrow> True) es \<longleftrightarrow>
        (\<forall>ti. EvEnqueue l ti \<notin> set es)" for l
    by (induction es) (auto split: event.splits)
  then show ?thesis by (cases e) simp_all
qed

lemma no_late_enqueue_append:
  "no_late_enqueue (tr1 @ tr2) \<longleftrightarrow>
     no_late_enqueue tr1 \<and> no_late_enqueue tr2 \<and>
     (\<forall>l k ti. EvSpawn l k \<in> set tr1 \<longrightarrow> EvEnqueue l ti \<notin> set tr2)"
proof (induction tr1)
  case Nil
  show ?case by simp
next
  case (Cons e tr1)
  show ?case
    unfolding append_Cons no_late_enqueue_Cons Cons.IH by auto
qed

lemma no_late_enqueue_split:
  "no_late_enqueue tr \<longleftrightarrow>
     (\<forall>a l k b ti. tr = a @ EvSpawn l k # b \<longrightarrow> EvEnqueue l ti \<notin> set b)"
proof
  assume n: "no_late_enqueue tr"
  show "\<forall>a l k b ti. tr = a @ EvSpawn l k # b \<longrightarrow> EvEnqueue l ti \<notin> set b"
  proof (intro allI impI)
    fix a l k b ti
    assume "tr = a @ EvSpawn l k # b"
    with n have "no_late_enqueue (EvSpawn l k # b)"
      by (simp add: no_late_enqueue_append)
    then show "EvEnqueue l ti \<notin> set b"
      unfolding no_late_enqueue_Cons by blast
  qed
next
  assume "\<forall>a l k b ti. tr = a @ EvSpawn l k # b \<longrightarrow> EvEnqueue l ti \<notin> set b"
  then show "no_late_enqueue tr"
  proof (induction tr)
    case Nil
    show ?case by simp
  next
    case (Cons e tr)
    have "\<forall>a l k b ti. tr = a @ EvSpawn l k # b \<longrightarrow> EvEnqueue l ti \<notin> set b"
    proof (intro allI impI)
      fix a l k b ti
      assume "tr = a @ EvSpawn l k # b"
      then have "e # tr = (e # a) @ EvSpawn l k # b" by simp
      with Cons.prems show "EvEnqueue l ti \<notin> set b" by blast
    qed
    from Cons.IH [OF this] have "no_late_enqueue tr" .
    moreover have "\<forall>l k ti. e = EvSpawn l k \<longrightarrow> EvEnqueue l ti \<notin> set tr"
    proof (intro allI impI)
      fix l k ti
      assume "e = EvSpawn l k"
      then have "e # tr = [] @ EvSpawn l k # tr" by simp
      with Cons.prems show "EvEnqueue l ti \<notin> set tr" by blast
    qed
    ultimately show ?case unfolding no_late_enqueue_Cons by simp
  qed
qed

lemma no_late_enqueue_level_block:
  "no_late_enqueue (map (EvEnqueue l) q @ map (EvSpawn l) ks @ map (EvJoin l) ks')"
proof -
  have a: "no_late_enqueue (map (EvEnqueue l) q)" for q
    by (induction q) simp_all
  have b: "no_late_enqueue (map (EvJoin l) ks)" for ks
    by (induction ks) simp_all
  have c: "no_late_enqueue (map (EvSpawn l) ks)" for ks
    by (induction ks) (auto simp del: no_late_enqueue.simps(2) simp add: no_late_enqueue_Cons)
  show ?thesis
    unfolding no_late_enqueue_append using a b c by auto
qed

lemma level_body_trace:
  assumes "level_body verdict l ns t = Inr (Continue t' ns')"
  shows "trace t' =
     trace t @
     map (EvEnqueue l) (drop (length (work_queue t)) (work_queue (fst (fill_queue l ns (t, 0, []))))) @
     map (EvSpawn l) [0..<nat (nr_threads t)] @ map (EvJoin l) [0..<nat (nr_threads t)]"
proof -
  from level_body_ContinueE [OF assms] have "t' = after_level verdict l ns t" by blast
  then show ?thesis by (simp add: after_level_fields work_queue_fill_queue)
qed

lemma level_loop_trace:
  assumes "level_loop verdict level nodes s = Inr (s', final)"
  shows "\<exists>tr. trace s' = trace s @ tr \<and> no_late_enqueue tr"
proof (rule level_loop_rule [OF assms, where
      I = "\<lambda>l ns t. \<exists>tr. trace t = trace s @ tr \<and> no_late_enqueue tr \<and>
                          (\<forall>e\<in>set tr. event_level e < l)"])
  show "\<exists>tr. trace s = trace s @ tr \<and> no_late_enqueue tr \<and> (\<forall>e\<in>set tr. event_level e < level)"
    by simp
next
  fix l ns t' ns' and t :: pc_algorithm
  assume "\<exists>tr. trace t = trace s @ tr \<and> no_late_enqueue tr \<and> (\<forall>e\<in>set tr. event_level e < l)"
  then obtain tr where tr: "trace t = trace s @ tr" "no_late_enqueue tr"
    "\<forall>e\<in>set tr. event_level e < l" by blast
  assume "level_body verdict l ns t = Inr (Continue t' ns')"
  from level_body_trace [OF this] obtain q where
    t': "trace t' = trace t @ map (EvEnqueue l) q @ map (EvSpawn l) [0..<nat (nr_threads t)] @
                   map (EvJoin l) [0..<nat (nr_threads t)]" by blast
  let ?b = "map (EvEnqueue l) q @ map (EvSpawn l) [0..<nat (nr_threads t)] @ map (EvJoin l) [0..<nat (nr_threads t)]"
  have lv: "\<forall>e\<in>set ?b. event_level e = l" by auto
  have "no_late_enqueue (tr @ ?b)"
    unfolding no_late_enqueue_append [of tr]
  proof (intro conjI allI impI)
    show "no_late_enqueue tr" by (rule tr(2))
    show "no_late_enqueue ?b" by (rule no_late_enqueue_level_block)
    fix l' k ti
    assume "EvSpawn l' k \<in> set tr"
    with tr(3) have "l' < l" by force
    with lv show "EvEnqueue l' ti \<notin> set ?b" by force
  qed
  moreover have "\<forall>e\<in>set (tr @ ?b). event_level e < l + 1"
    using tr(3) lv by force
  moreover have "trace t' = trace s @ (tr @ ?b)"
    using t' tr(1) by simp
  ultimately show "\<exists>tr. trace t' = trace s @ tr \<and> no_late_enqueue tr \<and>
                        (\<forall>e\<in>set tr. event_level e < l + 1)" by blast
next
  fix l ns t t'
  assume i: "\<exists>tr. trace t = trace s @ tr \<and> no_late_enqueue tr \<and> (\<forall>e\<in>set tr. event_level e < l)"
    and "level_body verdict l ns t = Inr (Break t')"
  from level_body_BreakE [OF this(2)] have "trace t' = trace t" by auto
  with i show "\<exists>tr. trace t' = trace s @ tr \<and> no_late_enqueue tr" by auto
next
  fix l and t :: pc_algorithm
  assume "\<exists>tr. trace t = trace s @ tr \<and> no_late_enqueue tr \<and> (\<forall>e\<in>set tr. event_level e < l)"
  then show "\<exists>tr. trace t = trace s @ tr \<and> no_late_enqueue tr" by auto
qed

section \<open>The graph after level 0\<close>

lemma level0_row_graph:
  assumes "level0_row test gt a i js (d, g) = (d', g')"
  shows "length g' = length g \<and>
         (\<forall>u<length g. \<forall>v. v \<in> set (g' ! u) \<longleftrightarrow>
            v \<in> set (g ! u) \<and>
            \<not> (\<exists>j\<in>set js. a \<le> test gt i j [] \<and> ((u = i \<and> v = j) \<or> (u = j \<and> v = i))))"
  using assms
proof (induction js arbitrary: d g)
  case Nil
  then show ?case by simp
next
  case (Cons j js)
  show ?case
  proof (cases "a \<le> test gt i j []")
    case True
    with Cons.prems have "level0_row test gt a i js (d + 2, deleteEdge g i j) = (d', g')"
      by simp
    from Cons.IH [OF this] True show ?thesis
      by (simp add: deleteEdge_set)
  next
    case False
    with Cons.prems have "level0_row test gt a i js (d, g) = (d', g')" by simp
    from Cons.IH [OF this] False show ?thesis by simp
  qed
qed

lemma level0_rows_graph:
  assumes "level0_rows test gt a is (d, g) = (d', g')"
  shows "length g' = length g \<and>
         (\<forall>u<length g. \<forall>v. v \<in> set (g' ! u) \<longleftrightarrow>
            v \<in> set (g ! u) \<and>
            \<not> (\<exists>i\<in>set is. \<exists>j<i. a \<le> test gt i j [] \<and> ((u = i \<and> v = j) \<or> (u = j \<and> v = i))))"
  using assms
proof (induction "is" arbitrary: d g)
  case Nil
  then show ?case by simp
next
  case (Cons i "is")
  obtain d1 g1 where r: "level0_row test gt a i [0..<i] (d, g) = (d1, g1)"
    by (cases "level0_row test gt a i [0..<i] (d, g)")
  with Cons.prems have "level0_rows test gt a is (d1, g1) = (d', g')" by simp
  note ih = Cons.IH [OF this] and row = level0_row_graph [OF r]
  show ?case
  proof (intro conjI allI impI)
    show "length g' = length g" using ih row by simp
  next
    fix u v
    assume u: "u < length g"
    let ?P = "\<lambda>i j. a \<le> test gt i j [] \<and> ((u = i \<and> v = j) \<or> (u = j \<and> v = i))"
    have c: "(\<exists>j\<in>set [0..<i]. ?P i j) \<longleftrightarrow> (\<exists>j<i. ?P i j)" by auto
    from row u have "v \<in> set (g1 ! u) \<longleftrightarrow>
        v \<in> set (g ! u) \<and> \<not> (\<exists>j\<in>set [0..<i]. ?P i j)"
      by blast
    then have 1: "v \<in> set (g1 ! u) \<longleftrightarrow> v \<in> set (g ! u) \<and> \<not> (\<exists>j<i. ?P i j)"
      unfolding c .
    from row u have "u < length g1" by simp
    with ih have 2: "v \<in> set (g' ! u) \<longleftrightarrow>
        v \<in> set (g1 ! u) \<and> \<not> (\<exists>i\<in>set is. \<exists>j<i. ?P i j)"
      by blast
    have 3: "(\<exists>i'\<in>set (i # is). \<exists>j<i'. ?P i' j) \<longleftrightarrow>
             (\<exists>j<i. ?P i j) \<or> (\<exists>i\<in>set is. \<exists>j<i. ?P i j)"
      by (simp only: set_simps bex_simps)
    show "v \<in> set (g' ! u) \<longleftrightarrow>
            v \<in> set (g ! u) \<and> \<not> (\<exists>i\<in>set (i # is). \<exists>j<i. ?P i j)"
      unfolding 1 2 3 by blast
  qed
qed

lemma wf_level0_row:
  "wf_graph p g \<Longrightarrow> level0_row test gt a i js (d, g) = (d', g') \<Longrightarrow> wf_graph p g'"
proof (induction js arbitrary: d g)
  case Nil
  then show ?case by simp
next
  case (Cons j js)
  show ?case
  proof (cases "a \<le> test gt i j []")
    case True
    with Cons.prems(2) have "level0_row test gt a i js (d + 2, deleteEdge g i j) = (d', g')"
      by simp
    from Cons.IH [OF wf_deleteEdge [OF Cons.prems(1)] this] show ?thesis .
  next
    case False
    with Cons.prems(2) have "level0_row test gt a i js (d, g) = (d', g')" by simp
    from Cons.IH [OF Cons.prems(1) this] show ?thesis .
  qed
qed

lemma wf_level0_rows:
  "wf_graph p g \<Longrightarrow> level0_rows test gt a is (d, g) = (d', g') \<Longrightarrow> wf_graph p g'"
proof (induction "is" arbitrary: d g)
  case Nil
  then show ?case by simp
next
  case (Cons i "is")
  obtain d1 g1 where r: "level0_row test gt a i [0..<i] (d, g) = (d1, g1)"
    by (cases "level0_row test gt a i [0..<i] (d, g)")
  with Cons.prems(2) have "level0_rows test gt a is (d1, g1) = (d', g')" by simp
  from Cons.IH [OF wf_level0_row [OF Cons.prems(1) r] this] show ?case .
qed

section \<open>The reads of build_correlation_matrix\<close>

lemma view_array_eq:
  "view_array data i stride n =
     (if view_ok data i stride n then Inr (row_view data i stride n) else Inl OutOfBoundsRead)"
  by (simp add: view_array_def view_ok_def row_view_def)

lemma correlation_row_eq:
  "correlation_row gsl stride data n i js C =
     (if js = [] \<or> (view_ok data i stride n \<and> (\<forall>j\<in>set js. view_ok data j stride n))
      then Inr (fold (set_pair (\<lambda>i j. gsl (row_view data i stride n) (row_view data j stride n)) i) js C)
      else Inl OutOfBoundsRead)"
proof (induction js arbitrary: C)
  case Nil
  show ?case by simp
next
  case (Cons j js)
  let ?v = "\<lambda>i j. gsl (row_view data i stride n) (row_view data j stride n)"
  have step: "mat_set (mat_set C j i (?v i j)) i j (?v i j) = set_pair ?v i j C"
    by (simp add: set_pair_def)
  show ?case
    by (simp add: view_array_eq Let_def step Cons.IH)
qed

lemma correlation_rows_eq:
  "correlation_rows gsl stride data n is C =
     (if \<forall>i\<in>set is. i = 0 \<or> (view_ok data i stride n \<and> (\<forall>j<i. view_ok data j stride n))
      then Inr (fold (\<lambda>i. fold (set_pair (\<lambda>i j. gsl (row_view data i stride n) (row_view data j stride n)) i) [0..<i]) is C)
      else Inl OutOfBoundsRead)"
proof (induction "is" arbitrary: C)
  case Nil
  show ?case by simp
next
  case (Cons i "is")
  have e: "([0..<i] = [] \<or> (view_ok data i stride n \<and> (\<forall>j\<in>set [0..<i]. view_ok data j stride n))) \<longleftrightarrow>
           (i = 0 \<or> (view_ok data i stride n \<and> (\<forall>j<i. view_ok data j stride n)))"
    by auto
  show ?case
    unfolding correlation_rows.simps correlation_row_eq e
    by (simp add: Cons.IH)
qed

lemma correlation_rows_ok_iff:
  "(\<forall>i\<in>set [0..<p]. i = 0 \<or> (view_ok data i stride n \<and> (\<forall>j<i. view_ok data j stride n))) \<longleftrightarrow>
   (2 \<le> p \<longrightarrow> (\<forall>i<p. view_ok data i stride n))"
proof -
  let ?Q = "\<lambda>i. i = 0 \<or> (view_ok data i stride n \<and> (\<forall>j<i. view_ok data j stride n))"
  have "(\<forall>i<p. ?Q i) \<longleftrightarrow> (2 \<le> p \<longrightarrow> (\<forall>i<p. view_ok data i stride n))"
  proof
    assume a: "\<forall>i<p. ?Q i"
    show "2 \<le> p \<longrightarrow> (\<forall>i<p. view_ok data i stride n)"
    proof (intro impI allI)
      fix i assume p: "2 \<le> p" and i: "i < p"
      from p have "1 < p" by simp
      with a have "?Q 1" by blast
      then have 0: "view_ok data 0 stride n" by simp
      from a i have "?Q i" by blast
      with 0 show "view_ok data i stride n" by (cases "i = 0") simp_all
    qed
  next
    assume b: "2 \<le> p \<longrightarrow> (\<forall>i<p. view_ok data i stride n)"
    show "\<forall>i<p. ?Q i"
    proof (intro allI impI)
      fix i assume i: "i < p"
      show "?Q i"
      proof (cases "i = 0")
        case True
        then show ?thesis by simp
      next
        case False
        with i have "2 \<le> p" by simp
        with b have v: "\<forall>k<p. view_ok data k stride n" by simp
        have "\<forall>j<i. view_ok data j stride n"
        proof (intro allI impI)
          fix j assume "j < i"
          with i have "j < p" by simp
          with v show "view_ok data j stride n" by simp
        qed
        with v i show ?thesis by simp
      qed
    qed
  qed
  then show ?thesis by (simp only: set_upt atLeastLessThan_iff Ball_def) simp
qed

lemma build_correlation_matrix_returns_iff:
  "(\<exists>s'. build_correlation_matrix gsl stride test data s = Inr s') \<longleftrightarrow>
     data \<noteq> [] \<and>
     (2 \<le> nr_variables s \<longrightarrow> (\<forall>i<nr_variables s. view_ok data i stride (length (data ! 0))))"
proof (cases "data = []")
  case True
  then show ?thesis by (simp add: build_correlation_matrix_def)
next
  case False
  let ?r = "correlation_rows gsl stride data (length (data ! 0)) [0..<nr_variables s] (correlation s)"
  show ?thesis
  proof (cases "2 \<le> nr_variables s \<longrightarrow> (\<forall>i<nr_variables s. view_ok data i stride (length (data ! 0)))")
    case True
    then obtain C where "?r = Inr C"
      unfolding correlation_rows_eq correlation_rows_ok_iff by simp
    with False have "\<exists>s'. build_correlation_matrix gsl stride test data s = Inr s'"
      by (simp add: build_correlation_matrix_def Let_def split: prod.splits)
    with False True show ?thesis by blast
  next
    case f: False
    then have "?r = Inl OutOfBoundsRead"
      unfolding correlation_rows_eq correlation_rows_ok_iff by simp
    with False have "build_correlation_matrix gsl stride test data s = Inl OutOfBoundsRead"
      by (simp add: build_correlation_matrix_def Let_def)
    with f show ?thesis by simp
  qed
qed

lemma build_correlation_matrix_error:
  "build_correlation_matrix gsl stride test data s = Inl e \<Longrightarrow> e = OutOfBoundsRead"
  unfolding build_correlation_matrix_def Let_def correlation_rows_eq
  by (simp split: if_splits prod.splits)

lemma view_ok_stride_1: "view_ok data i 1 n \<longleftrightarrow> i < length data \<and> n \<le> length (data ! i)"
  by (auto simp: view_ok_def)

lemma view_array_take:
  "view_array (map (take n) data) i (Suc 0) n = view_array data i (Suc 0) n"
proof (cases "i < length data")
  case True
  have "map (\<lambda>k. take n (data ! i) ! k) [0..<n] = map (\<lambda>k. data ! i ! k) [0..<n]"
    by (rule map_cong) simp_all
  with True show ?thesis
    by (auto simp: view_array_def)
next
  case False
  then show ?thesis by (simp add: view_array_def)
qed

lemma correlation_row_take:
  "correlation_row gsl (Suc 0) (map (take n) data) n i js C =
   correlation_row gsl (Suc 0) data n i js C"
  by (induction js arbitrary: C) (simp_all add: view_array_take Let_def split: sum.splits)

lemma correlation_rows_take:
  "correlation_rows gsl (Suc 0) (map (take n) data) n is C =
   correlation_rows gsl (Suc 0) data n is C"
  by (induction "is" arbitrary: C) (simp_all add: correlation_row_take split: sum.splits)

lemma build_correlation_matrix_take:
  "build_correlation_matrix gsl 1 test (map (take (length (data ! 0))) data) s =
   build_correlation_matrix gsl 1 test data s"
proof (cases "data = []")
  case True
  then show ?thesis by simp
next
  case False
  then have "length (map (take (length (data ! 0))) data ! 0) = length (data ! 0)"
    by (simp add: nth_map)
  with False show ?thesis
    by (simp add: build_correlation_matrix_def correlation_rows_take)
qed

text \<open>Rows from index \<open>p\<close> on are not read.\<close>

lemma view_array_take_rows:
  "k < m \<Longrightarrow> view_array (take m data) k stride n = view_array data k stride n"
  by (simp add: view_array_def)

lemma correlation_row_cong:
  assumes "\<And>k. k = i \<or> k \<in> set js \<Longrightarrow> view_array d2 k stride n = view_array d1 k stride n"
  shows "correlation_row gsl stride d2 n i js C = correlation_row gsl stride d1 n i js C"
  using assms
proof (induction js arbitrary: C)
  case Nil
  show ?case by simp
next
  case (Cons j js)
  have i: "view_array d2 i stride n = view_array d1 i stride n"
    and j: "view_array d2 j stride n = view_array d1 j stride n"
    using Cons.prems by simp_all
  have "\<And>C. correlation_row gsl stride d2 n i js C = correlation_row gsl stride d1 n i js C"
    using Cons.prems by (intro Cons.IH) auto
  then show ?case
    by (simp add: i j Let_def split: sum.splits)
qed

lemma correlation_rows_cong:
  assumes "\<And>k. k < p \<Longrightarrow> view_array d2 k stride n = view_array d1 k stride n"
    and "\<forall>i\<in>set is. i < p"
  shows "correlation_rows gsl stride d2 n is C = correlation_rows gsl stride d1 n is C"
  using assms(2)
proof (induction "is" arbitrary: C)
  case Nil
  show ?case by simp
next
  case (Cons i "is")
  from Cons.prems have i: "i < p" and "is": "\<forall>i\<in>set is. i < p" by simp_all
  have "correlation_row gsl stride d2 n i [0..<i] C = correlation_row gsl stride d1 n i [0..<i] C"
    using i by (intro correlation_row_cong assms(1)) auto
  moreover have "\<And>C. correlation_rows gsl stride d2 n is C = correlation_rows gsl stride d1 n is C"
    by (rule Cons.IH [OF "is"])
  ultimately show ?case by (simp split: sum.splits)
qed

lemma build_correlation_matrix_take_rows:
  "build_correlation_matrix gsl stride test (take (max 1 (nr_variables s)) data) s =
   build_correlation_matrix gsl stride test data s"
proof (cases "data = []")
  case True
  then show ?thesis by simp
next
  case False
  let ?d = "take (max 1 (nr_variables s)) data"
  from False have ne: "?d \<noteq> []" by simp
  have n: "length (?d ! 0) = length (data ! 0)" by simp
  have v: "view_array ?d k stride (length (data ! 0)) = view_array data k stride (length (data ! 0))"
    if "k < nr_variables s" for k
    using that by (intro view_array_take_rows) simp
  have "correlation_rows gsl stride ?d (length (data ! 0)) [0..<nr_variables s] (correlation s) =
        correlation_rows gsl stride data (length (data ! 0)) [0..<nr_variables s] (correlation s)"
    by (rule correlation_rows_cong [OF v]) auto
  with False ne n show ?thesis
    by (simp add: build_correlation_matrix_def del: take_eq_Nil)
qed

section \<open>The entries of the correlation matrix\<close>

lemma square_nth: "square p C \<Longrightarrow> a < p \<Longrightarrow> length (C ! a) = p"
  by (simp add: square_def list_all_length)

lemma square_mat_set:
  assumes "square p C"
  shows "square p (mat_set C i j v)"
proof -
  from assms have l: "length C = p" and r: "\<And>n. n < p \<Longrightarrow> length (C ! n) = p"
    by (simp_all add: square_def list_all_length)
  have "length (C[i := (C ! i)[j := v]] ! n) = p" if "n < p" for n
    using that l r by (cases "n = i") simp_all
  with l show ?thesis
    by (simp add: square_def mat_set_def list_all_length)
qed

lemma mat_set_nth:
  assumes "square p C" and "i < p" and "j < p" and "a < p" and "b < p"
  shows "mat_set C i j v ! a ! b = (if a = i \<and> b = j then v else C ! a ! b)"
proof -
  from assms(1) have l: "length C = p" by (simp add: square_def)
  from square_nth [OF assms(1,2)] have r: "length (C ! i) = p" .
  show ?thesis
    using assms(2-5) l r by (simp add: mat_set_def nth_list_update)
qed

lemma square_set_pair: "square p C \<Longrightarrow> square p (set_pair v i j C)"
  by (simp add: set_pair_def square_mat_set)

lemma mat_set_hit:
  assumes "square p C" and "i < p" and "j < p"
  shows "mat_set C i j v ! i ! j = v"
  using mat_set_nth [OF assms assms(2,3), of v] by simp

lemma mat_set_miss:
  assumes "square p C" and "i < p" and "j < p" and "a < p" and "b < p"
    and "\<not> (a = i \<and> b = j)"
  shows "mat_set C i j v ! a ! b = C ! a ! b"
  using mat_set_nth [OF assms(1-5), of v] assms(6) by (simp only: if_False)

lemma set_pair_hit1:
  assumes "square p C" and "i < p" and "j < p"
  shows "set_pair v i j C ! i ! j = v i j"
  unfolding set_pair_def by (rule mat_set_hit [OF square_mat_set [OF assms(1)] assms(2,3)])

lemma set_pair_hit2:
  assumes "square p C" and "i < p" and "j < p"
  shows "set_pair v i j C ! j ! i = v i j"
proof (cases "j = i")
  case True
  with set_pair_hit1 [OF assms, of v] show ?thesis by simp
next
  case False
  then have n: "\<not> (j = i \<and> i = j)" by simp
  have "set_pair v i j C ! j ! i = mat_set C j i (v i j) ! j ! i"
    unfolding set_pair_def
    by (rule mat_set_miss [OF square_mat_set [OF assms(1)] assms(2,3) assms(3,2) n])
  also have "\<dots> = v i j" by (rule mat_set_hit [OF assms(1) assms(3,2)])
  finally show ?thesis .
qed

lemma set_pair_miss:
  assumes "square p C" and "i < p" and "j < p" and "a < p" and "b < p"
    and "\<not> (a = i \<and> b = j)" and "\<not> (a = j \<and> b = i)"
  shows "set_pair v i j C ! a ! b = C ! a ! b"
proof -
  have "set_pair v i j C ! a ! b = mat_set C j i (v i j) ! a ! b"
    unfolding set_pair_def
    by (rule mat_set_miss [OF square_mat_set [OF assms(1)] assms(2,3,4,5,6)])
  also have "\<dots> = C ! a ! b"
    by (rule mat_set_miss [OF assms(1) assms(3,2,4,5,7)])
  finally show ?thesis .
qed

lemma square_fold_set_pair: "square p C \<Longrightarrow> square p (fold (set_pair v i) js C)"
  by (induction js arbitrary: C) (simp_all add: square_set_pair)

lemma fold_set_pair_miss:
  assumes "i < p" and "a < p" and "b < p"
  shows "square p C \<Longrightarrow> \<forall>j\<in>set js. j < p \<Longrightarrow>
         \<not> (a = i \<and> b \<in> set js) \<Longrightarrow> \<not> (b = i \<and> a \<in> set js) \<Longrightarrow>
         fold (set_pair v i) js C ! a ! b = C ! a ! b"
proof (induction js arbitrary: C)
  case Nil
  show ?case by simp
next
  case (Cons j js)
  from Cons.prems(2) have j: "j < p" and js: "\<forall>j\<in>set js. j < p" by simp_all
  from Cons.prems(3) have n1: "\<not> (a = i \<and> b = j)" and m1: "\<not> (a = i \<and> b \<in> set js)"
    by simp_all
  from Cons.prems(4) have n2: "\<not> (a = j \<and> b = i)" and m2: "\<not> (b = i \<and> a \<in> set js)"
    by auto
  have "fold (set_pair v i) (j # js) C ! a ! b = fold (set_pair v i) js (set_pair v i j C) ! a ! b"
    by simp
  also have "\<dots> = set_pair v i j C ! a ! b"
    by (rule Cons.IH [OF square_set_pair [OF Cons.prems(1)] js m1 m2])
  also have "\<dots> = C ! a ! b"
    by (rule set_pair_miss [OF Cons.prems(1) assms(1) j assms(2,3) n1 n2])
  finally show ?case .
qed

lemma fold_set_pair_hit1:
  assumes "i < p"
  shows "square p C \<Longrightarrow> \<forall>j\<in>set js. j < i \<Longrightarrow> b \<in> set js \<Longrightarrow>
         fold (set_pair v i) js C ! i ! b = v i b"
proof (induction js arbitrary: C)
  case Nil
  then show ?case by simp
next
  case (Cons j js)
  from Cons.prems(2) assms have j: "j < i" "j < p" and js: "\<forall>j\<in>set js. j < i"
    and jsp: "\<forall>j\<in>set js. j < p" by auto
  note sq = square_set_pair [OF Cons.prems(1), of v i j]
  have f: "fold (set_pair v i) (j # js) C = fold (set_pair v i) js (set_pair v i j C)"
    by simp
  show ?case
  proof (cases "b \<in> set js")
    case True
    from Cons.IH [OF sq js True] show ?thesis unfolding f .
  next
    case False
    with Cons.prems(3) have b: "b = j" by simp
    from False b have m1: "\<not> (i = i \<and> j \<in> set js)" by simp
    from j(1) have m2: "\<not> (j = i \<and> i \<in> set js)" by simp
    have "fold (set_pair v i) js (set_pair v i j C) ! i ! j = set_pair v i j C ! i ! j"
      by (rule fold_set_pair_miss [OF assms assms j(2) sq jsp m1 m2])
    also have "\<dots> = v i j" by (rule set_pair_hit1 [OF Cons.prems(1) assms j(2)])
    finally show ?thesis unfolding f b .
  qed
qed

lemma fold_set_pair_hit2:
  assumes "i < p"
  shows "square p C \<Longrightarrow> \<forall>j\<in>set js. j < i \<Longrightarrow> a \<in> set js \<Longrightarrow>
         fold (set_pair v i) js C ! a ! i = v i a"
proof (induction js arbitrary: C)
  case Nil
  then show ?case by simp
next
  case (Cons j js)
  from Cons.prems(2) assms have j: "j < i" "j < p" and js: "\<forall>j\<in>set js. j < i"
    and jsp: "\<forall>j\<in>set js. j < p" by auto
  note sq = square_set_pair [OF Cons.prems(1), of v i j]
  have f: "fold (set_pair v i) (j # js) C = fold (set_pair v i) js (set_pair v i j C)"
    by simp
  show ?case
  proof (cases "a \<in> set js")
    case True
    from Cons.IH [OF sq js True] show ?thesis unfolding f .
  next
    case False
    with Cons.prems(3) have a: "a = j" by simp
    from j(1) have m1: "\<not> (j = i \<and> i \<in> set js)" by simp
    from False a have m2: "\<not> (i = i \<and> j \<in> set js)" by simp
    have "fold (set_pair v i) js (set_pair v i j C) ! j ! i = set_pair v i j C ! j ! i"
      by (rule fold_set_pair_miss [OF assms j(2) assms sq jsp m1 m2])
    also have "\<dots> = v i j" by (rule set_pair_hit2 [OF Cons.prems(1) assms j(2)])
    finally show ?thesis unfolding f a .
  qed
qed

text \<open>The row loops of lines 117 to 128 on a square matrix, entry by entry.\<close>

lemma square_fold_rows:
  "square p C \<Longrightarrow> square p (fold (\<lambda>i. fold (set_pair v i) [0..<i]) is C)"
  by (induction "is" arbitrary: C) (simp_all add: square_fold_set_pair)

lemma fold_rows_miss:
  assumes "a < p" and "b < p"
  shows "square p C \<Longrightarrow> \<forall>i\<in>set is. i < p \<Longrightarrow>
         \<not> (a \<in> set is \<and> b < a) \<Longrightarrow> \<not> (b \<in> set is \<and> a < b) \<Longrightarrow>
         fold (\<lambda>i. fold (set_pair v i) [0..<i]) is C ! a ! b = C ! a ! b"
proof (induction "is" arbitrary: C)
  case Nil
  show ?case by simp
next
  case (Cons i "is")
  from Cons.prems(2) have i: "i < p" and "is": "\<forall>i\<in>set is. i < p" by simp_all
  have jsp: "\<forall>j\<in>set [0..<i]. j < p" using i by simp
  from Cons.prems(3) have n1: "\<not> (a = i \<and> b \<in> set [0..<i])"
    and m1: "\<not> (a \<in> set is \<and> b < a)" by auto
  from Cons.prems(4) have n2: "\<not> (b = i \<and> a \<in> set [0..<i])"
    and m2: "\<not> (b \<in> set is \<and> a < b)" by auto
  note sq = square_fold_set_pair [OF Cons.prems(1), of v i "[0..<i]"]
  have "fold (\<lambda>i. fold (set_pair v i) [0..<i]) (i # is) C ! a ! b =
        fold (\<lambda>i. fold (set_pair v i) [0..<i]) is (fold (set_pair v i) [0..<i] C) ! a ! b"
    by simp
  also have "\<dots> = fold (set_pair v i) [0..<i] C ! a ! b"
    by (rule Cons.IH [OF sq "is" m1 m2])
  also have "\<dots> = C ! a ! b"
    by (rule fold_set_pair_miss [OF i assms Cons.prems(1) jsp n1 n2])
  finally show ?case .
qed

lemma fold_rows_hit1:
  assumes "b < a"
  shows "square p C \<Longrightarrow> \<forall>i\<in>set is. i < p \<Longrightarrow> a \<in> set is \<Longrightarrow>
         fold (\<lambda>i. fold (set_pair v i) [0..<i]) is C ! a ! b = v a b"
proof (induction "is" arbitrary: C)
  case Nil
  then show ?case by simp
next
  case (Cons i "is")
  from Cons.prems(2) have i: "i < p" and "is": "\<forall>i\<in>set is. i < p" by simp_all
  note sq = square_fold_set_pair [OF Cons.prems(1), of v i "[0..<i]"]
  have f: "fold (\<lambda>i. fold (set_pair v i) [0..<i]) (i # is) C =
           fold (\<lambda>i. fold (set_pair v i) [0..<i]) is (fold (set_pair v i) [0..<i] C)"
    by simp
  show ?case
  proof (cases "a \<in> set is")
    case True
    from Cons.IH [OF sq "is" True] show ?thesis unfolding f .
  next
    case False
    with Cons.prems(3) have a: "a = i" by simp
    from i a assms have ap: "a < p" and bp: "b < p" by simp_all
    from False have m1: "\<not> (a \<in> set is \<and> b < a)" by simp
    from assms have m2: "\<not> (b \<in> set is \<and> a < b)" by simp
    have js: "\<forall>j\<in>set [0..<i]. j < i" by simp
    have bj: "b \<in> set [0..<i]" using assms a by simp
    have "fold (\<lambda>i. fold (set_pair v i) [0..<i]) is (fold (set_pair v i) [0..<i] C) ! a ! b =
          fold (set_pair v i) [0..<i] C ! a ! b"
      by (rule fold_rows_miss [OF ap bp sq "is" m1 m2])
    also have "\<dots> = v a b"
      unfolding a by (rule fold_set_pair_hit1 [OF i Cons.prems(1) js bj])
    finally show ?thesis unfolding f .
  qed
qed

lemma fold_rows_hit2:
  assumes "a < b"
  shows "square p C \<Longrightarrow> \<forall>i\<in>set is. i < p \<Longrightarrow> b \<in> set is \<Longrightarrow>
         fold (\<lambda>i. fold (set_pair v i) [0..<i]) is C ! a ! b = v b a"
proof (induction "is" arbitrary: C)
  case Nil
  then show ?case by simp
next
  case (Cons i "is")
  from Cons.prems(2) have i: "i < p" and "is": "\<forall>i\<in>set is. i < p" by simp_all
  note sq = square_fold_set_pair [OF Cons.prems(1), of v i "[0..<i]"]
  have f: "fold (\<lambda>i. fold (set_pair v i) [0..<i]) (i # is) C =
           fold (\<lambda>i. fold (set_pair v i) [0..<i]) is (fold (set_pair v i) [0..<i] C)"
    by simp
  show ?case
  proof (cases "b \<in> set is")
    case True
    from Cons.IH [OF sq "is" True] show ?thesis unfolding f .
  next
    case False
    with Cons.prems(3) have b: "b = i" by simp
    from i b assms have ap: "a < p" and bp: "b < p" by simp_all
    from assms have m1: "\<not> (a \<in> set is \<and> b < a)" by simp
    from False have m2: "\<not> (b \<in> set is \<and> a < b)" by simp
    have js: "\<forall>j\<in>set [0..<i]. j < i" by simp
    have aj: "a \<in> set [0..<i]" using assms b by simp
    have "fold (\<lambda>i. fold (set_pair v i) [0..<i]) is (fold (set_pair v i) [0..<i] C) ! a ! b =
          fold (set_pair v i) [0..<i] C ! a ! b"
      by (rule fold_rows_miss [OF ap bp sq "is" m1 m2])
    also have "\<dots> = v b a"
      unfolding b by (rule fold_set_pair_hit2 [OF i Cons.prems(1) js aj])
    finally show ?thesis unfolding f .
  qed
qed

lemma square_eye: "square p (eye p)"
  by (simp add: square_def eye_def list_all_length)

lemma eye_nth: "a < p \<Longrightarrow> b < p \<Longrightarrow> eye p ! a ! b = (if a = b then 1 else 0)"
  by (simp add: eye_def)

lemma level_loop_correlation:
  assumes "level_loop verdict level nodes s = Inr (s', final)"
  shows "correlation s' = correlation s"
proof (rule level_loop_rule [OF assms, where I = "\<lambda>l ns t. correlation t = correlation s"])
  show "correlation s = correlation s" by simp
next
  fix l ns t' ns' and t :: pc_algorithm
  assume i: "correlation t = correlation s"
    and "level_body verdict l ns t = Inr (Continue t' ns')"
  from level_body_ContinueE [OF this(2)] have "t' = after_level verdict l ns t" by blast
  with i show "correlation t' = correlation s" by (simp add: after_level_fields)
next
  fix l ns t' and t :: pc_algorithm
  assume i: "correlation t = correlation s"
    and "level_body verdict l ns t = Inr (Break t')"
  from level_body_BreakE [OF this(2)] i show "correlation t' = correlation s" by auto
qed simp

lemma build_graph_correlation:
  assumes "build_graph order verdict s = Inr s'"
  shows "correlation s' = correlation s"
proof -
  from build_graph_InrE [OF assms] obtain t l where
    l: "level_loop verdict 1 (order [0..<nr_variables s])
          (s\<lparr> cout := cout s @ [Str ''Starting to fill test_queue'', Endl] \<rparr>) = Inr (t, l)"
    and s': "s' = t\<lparr> cout := cout t @ [Str ''Total independence tests made: '', Num 0, Endl] \<rparr>"
    by blast
  from level_loop_correlation [OF l] s' show ?thesis by simp
qed

lemma build_correlation_matrix_correlation:
  assumes "build_correlation_matrix gsl stride test data s = Inr s'"
  shows "correlation s' =
     fold (\<lambda>i. fold (set_pair (\<lambda>i j. gsl (row_view data i stride (length (data ! 0)))
                                       (row_view data j stride (length (data ! 0)))) i) [0..<i])
       [0..<nr_variables s] (correlation s)"
proof -
  from build_correlation_matrix_InrE [OF assms] obtain C d g where
    C: "correlation_rows gsl stride data (length (data ! 0)) [0..<nr_variables s] (correlation s) = Inr C"
    and s': "s' = s\<lparr> correlation := C, gauss_test := (nr_samples s, C), graph := g,
                     working_graph := Some g,
                     cout := cout s @ [Str ''Deleted edges: '', Num d, Endl] \<rparr>"
    by blast
  from C have "C = fold (\<lambda>i. fold (set_pair (\<lambda>i j. gsl (row_view data i stride (length (data ! 0)))
                                       (row_view data j stride (length (data ! 0)))) i) [0..<i])
       [0..<nr_variables s] (correlation s)"
    unfolding correlation_rows_eq by (simp split: if_splits)
  with s' show ?thesis by simp
qed

section \<open>The lines written by the level loop\<close>

lemma level_instructions_node:
  assumes "level_instructions g level nodes \<noteq> []"
  shows "\<exists>x\<in>set nodes. level \<le> getNeighbourCount g x - 1"
proof (rule ccontr)
  assume "\<not> (\<exists>x\<in>set nodes. level \<le> getNeighbourCount g x - 1)"
  then have "\<forall>x\<in>set nodes. \<not> level \<le> getNeighbourCount g x - 1" by blast
  then have "level_instructions g level nodes = []"
    by (simp add: level_instructions_def)
  with assms show False by simp
qed

lemma level_body_Continue_nodes:
  assumes "level_body verdict l ns t = Inr (Continue t' ns')"
  shows "ns' \<noteq> []"
proof -
  from level_body_ContinueE [OF assms] have
    q: "level_instructions (graph t) l ns \<noteq> []"
    and ns': "ns' = fold removeAll (nodes_to_delete_of (graph t) l ns) ns" by auto
  from level_instructions_node [OF q] obtain x where
    x: "x \<in> set ns" "l \<le> getNeighbourCount (graph t) x - 1" by blast
  from x(2) have "x \<notin> set (nodes_to_delete_of (graph t) l ns)"
    by (simp add: nodes_to_delete_of_def)
  with x(1) have "x \<in> set ns'" by (simp add: ns' set_fold_removeAll)
  then show ?thesis by auto
qed

lemma level_loop_output:
  assumes "level_loop verdict level nodes s = Inr (s', final)"
  shows "\<exists>qss. cout s' = cout s @ levels_lines level (map (\<lambda>q. int (length q)) qss) \<and>
              trace s' = trace s @ levels_events (nr_threads s) level qss \<and>
              list_all (\<lambda>q. q \<noteq> []) (butlast qss) \<and>
              (if nodes = [] then qss = [] else qss \<noteq> [] \<and> last qss = [])"
  using assms
proof (induction verdict level nodes s rule: level_loop.induct)
  case (1 verdict level nodes s)
  show ?case
  proof (cases "nodes = []")
    case True
    with "1.prems" have "s' = s" by (simp add: level_loop_Nil)
    with True have "cout s' = cout s @ levels_lines level (map (\<lambda>q. int (length q)) []) \<and>
              trace s' = trace s @ levels_events (nr_threads s) level [] \<and>
              list_all (\<lambda>q. q \<noteq> []) (butlast ([] :: TestInstruction list list)) \<and>
              (if nodes = [] then ([] :: TestInstruction list list) = []
               else ([] :: TestInstruction list list) \<noteq> [] \<and> last [] = ([] :: TestInstruction list))"
      by simp
    then show ?thesis by blast
  next
    case False
    show ?thesis
    proof (cases "level_body verdict level nodes s")
      case (Inl e)
      with False "1.prems" show ?thesis by (simp add: level_loop_Cons)
    next
      case (Inr st)
      show ?thesis
      proof (cases st)
        case (Break t)
        with Inr False "1.prems" have "s' = t" by (simp add: level_loop_Cons)
        with level_body_BreakE [OF Inr [unfolded Break]]
        have "cout s' = cout s @ levels_lines level (map (\<lambda>q. int (length q)) [[]])"
          and "trace s' = trace s @ levels_events (nr_threads s) level [[]]"
          by (auto simp: level_lines_def level_events_def)
        with False have "cout s' = cout s @ levels_lines level (map (\<lambda>q. int (length q)) [[]]) \<and>
              trace s' = trace s @ levels_events (nr_threads s) level [[]] \<and>
              list_all (\<lambda>q. q \<noteq> []) (butlast ([[]] :: TestInstruction list list)) \<and>
              (if nodes = [] then ([[]] :: TestInstruction list list) = []
               else ([[]] :: TestInstruction list list) \<noteq> [] \<and> last [[]] = ([] :: TestInstruction list))"
          by simp
        then show ?thesis by blast
      next
        case (Continue t ns')
        with Inr False "1.prems" have r: "level_loop verdict (level + 1) ns' t = Inr (s', final)"
          by (simp add: level_loop_Cons)
        from level_body_Continue_nodes [OF Inr [unfolded Continue]] have n: "ns' \<noteq> []" .
        from "1.IH" [OF False Inr Continue r] n obtain qss where
          qs: "cout s' = cout t @ levels_lines (level + 1) (map (\<lambda>q. int (length q)) qss)"
            "trace s' = trace t @ levels_events (nr_threads t) (level + 1) qss"
            "list_all (\<lambda>q. q \<noteq> []) (butlast qss)" "qss \<noteq> []" "last qss = []" by auto
        let ?q = "level_instructions (graph s) level nodes"
        from level_body_ContinueE [OF Inr [unfolded Continue]] have
          t: "t = after_level verdict level nodes s"
          and q: "?q \<noteq> []" by auto
        from t q have "cout t = cout s @ level_lines level (int (length ?q))"
          by (simp add: after_level_fields level_lines_def)
        with qs(1) have a: "cout s' = cout s @ levels_lines level (map (\<lambda>q. int (length q)) (?q # qss))"
          by simp
        from t q have "trace t = trace s @ level_events (nr_threads s) level ?q"
          and "nr_threads t = nr_threads s"
          by (simp_all add: after_level_fields level_events_def)
        with qs(2) have b: "trace s' = trace s @ levels_events (nr_threads s) level (?q # qss)"
          by simp
        from q qs(3,4) have c: "list_all (\<lambda>q. q \<noteq> []) (butlast (?q # qss))" by simp
        from qs(4,5) have d: "last (?q # qss) = []" by simp
        from a b c d False have
          "cout s' = cout s @ levels_lines level (map (\<lambda>q. int (length q)) (?q # qss)) \<and>
           trace s' = trace s @ levels_events (nr_threads s) level (?q # qss) \<and>
           list_all (\<lambda>q. q \<noteq> []) (butlast (?q # qss)) \<and>
           (if nodes = [] then ?q # qss = [] else ?q # qss \<noteq> [] \<and> last (?q # qss) = [])"
          by simp
        then show ?thesis by blast
      qed
    qed
  qed
qed

section \<open>The constructor\<close>

lemma square_fits_int:
  fixes vars :: int
  assumes "0 \<le> vars" and "vars \<le> 46340"
  shows "vars * vars \<le> INT_MAX"
proof -
  from assms have "vars * vars \<le> 46340 * 46340" by (intro mult_mono) simp_all
  then show ?thesis by (simp add: INT_MAX_def)
qed

lemma square_overflows_int:
  fixes vars :: int
  assumes "46340 < vars"
  shows "INT_MAX < vars * vars"
proof -
  from assms have "46341 * 46341 \<le> vars * vars" by (intro mult_mono) simp_all
  then show ?thesis by (simp add: INT_MAX_def)
qed

lemma PCAlgorithm_Inr:
  assumes "0 \<le> vars" and "vars \<le> 46340"
  shows "PCAlgorithm vars a n K =
     Inr \<lparr> graph = Graph (nat vars), working_graph = None, alpha = a,
           nr_variables = nat vars, nr_samples = n, nr_threads = K,
           correlation = eye (nat vars), gauss_test = (n, eye (nat vars)),
           work_queue = [], separation_matrix = replicate (nat vars * nat vars) None,
           cout = [], trace = [] \<rparr>"
  using assms square_fits_int [OF assms]
  by (simp add: PCAlgorithm_def nat_mult_distrib)

lemma PCAlgorithm_InrE:
  assumes "PCAlgorithm vars a n K = Inr s"
  shows "0 \<le> vars" and "vars \<le> 46340"
    and "s = \<lparr> graph = Graph (nat vars), working_graph = None, alpha = a,
           nr_variables = nat vars, nr_samples = n, nr_threads = K,
           correlation = eye (nat vars), gauss_test = (n, eye (nat vars)),
           work_queue = [], separation_matrix = replicate (nat vars * nat vars) None,
           cout = [], trace = [] \<rparr>"
proof -
  from assms show 0: "0 \<le> vars" by (auto simp: PCAlgorithm_def split: if_splits)
  from assms have "\<not> INT_MAX < vars * vars" by (auto simp: PCAlgorithm_def split: if_splits)
  with square_overflows_int [of vars] show 1: "vars \<le> 46340" by fastforce
  from PCAlgorithm_Inr [OF 0 1, of a n K] assms
  show "s = \<lparr> graph = Graph (nat vars), working_graph = None, alpha = a,
           nr_variables = nat vars, nr_samples = n, nr_threads = K,
           correlation = eye (nat vars), gauss_test = (n, eye (nat vars)),
           work_queue = [], separation_matrix = replicate (nat vars * nat vars) None,
           cout = [], trace = [] \<rparr>" by simp
qed

lemma PCAlgorithm_isl:
  "isl (PCAlgorithm vars a n K) \<longleftrightarrow> vars < 0 \<or> 46340 < vars"
proof (cases "0 \<le> vars \<and> vars \<le> 46340")
  case True
  then show ?thesis by (simp add: PCAlgorithm_Inr)
next
  case False
  then show ?thesis using square_overflows_int [of vars]
    by (auto simp: PCAlgorithm_def)
qed

section \<open>The invariant of the level loop\<close>

lemma level_inv_iff:
  "level_inv p level nodes s \<longleftrightarrow>
     wf_graph p (graph s) \<and> working_graph s = Some (graph s) \<and>
     distinct nodes \<and> set nodes \<subseteq> {0..<p} \<and>
     (\<forall>v<p. level \<le> getNeighbourCount (graph s) v - 1 \<longrightarrow> v \<in> set nodes)"
  unfolding level_inv_def list_all_iff Ball_def set_upt atLeastLessThan_iff subset_eq
  by simp

text \<open>
  The invariant holds when \<open>build_graph\<close> enters the level loop after
  \<open>build_correlation_matrix\<close> on a constructed instance, and every level that runs
  tests hands it on to the next one.
\<close>

lemma level_inv_initial:
  assumes "PCAlgorithm (int p) a n K = Inr s0"
    and "build_correlation_matrix gsl stride test data s0 = Inr s1"
    and "distinct (order [0..<p])" and "set (order [0..<p]) = {0..<p}"
  shows "level_inv p 1 (order [0..<nr_variables s1]) (s1\<lparr> cout := c \<rparr>)"
proof -
  from assms(1) have s0: "nr_variables s0 = p" "graph s0 = Graph p"
    by (auto simp: PCAlgorithm_def split: if_splits)
  from build_correlation_matrix_InrE [OF assms(2)] obtain C d g where
    r: "level0_rows test (nr_samples s0, C) (alpha s0) [0..<nr_variables s0] (0, graph s0) = (d, g)"
    and s1: "s1 = s0\<lparr> correlation := C, gauss_test := (nr_samples s0, C), graph := g,
                     working_graph := Some g,
                     cout := cout s0 @ [Str ''Deleted edges: '', Num d, Endl] \<rparr>"
    by blast
  from r s0 have "level0_rows test (nr_samples s0, C) (alpha s0) [0..<p] (0, Graph p) = (d, g)"
    by simp
  from wf_level0_rows [OF wf_Graph this] have "wf_graph p g" .
  with s1 s0 assms(3,4) show ?thesis
    unfolding level_inv_iff by simp
qed

lemma level_inv_step:
  assumes "level_inv p l ns t"
    and "level_body verdict l ns t = Inr (Continue t' ns')"
  shows "level_inv p (l + 1) ns' t'"
proof -
  from assms(1) have wf: "wf_graph p (graph t)" and w: "working_graph t = Some (graph t)"
    and d: "distinct ns" and sub: "set ns \<subseteq> {0..<p}"
    and cov: "\<And>v. v < p \<Longrightarrow> l \<le> getNeighbourCount (graph t) v - 1 \<Longrightarrow> v \<in> set ns"
    unfolding level_inv_iff by blast+
  from level_body_ContinueE [OF assms(2)] have
    t': "t' = after_level verdict l ns t"
    and ns': "ns' = fold removeAll (nodes_to_delete_of (graph t) l ns) ns" by auto
  from after_level_wf [OF w wf, of verdict l ns] t' obtain w' where
    w': "working_graph t' = Some w'" "graph t' = w'" "wf_graph p w'"
    "\<And>x. length (w' ! x) \<le> length (graph t ! x)" by auto
  have "v \<in> set ns'" if v: "v < p" and q: "l + 1 \<le> getNeighbourCount (graph t') v - 1" for v
  proof -
    from q w'(2) w'(4) [of v] have e: "l + 1 \<le> getNeighbourCount (graph t) v - 1"
      by (simp add: getNeighbourCount_def)
    then have "l \<le> getNeighbourCount (graph t) v - 1" by simp
    from cov [OF v this] have "v \<in> set ns" .
    moreover from e have "v \<notin> set (nodes_to_delete_of (graph t) l ns)"
      by (simp add: nodes_to_delete_of_def)
    ultimately show ?thesis by (simp add: ns' set_fold_removeAll)
  qed
  moreover have "distinct ns'" using d by (simp add: ns' distinct_fold_removeAll)
  moreover have "set ns' \<subseteq> {0..<p}" using sub by (auto simp: ns' set_fold_removeAll)
  ultimately show ?thesis
    unfolding level_inv_iff using w' by simp
qed

lemma level_inv_fill_queue:
  assumes "level_inv p level nodes s"
  shows "wf_graph p (graph s)" and "working_graph s = Some (graph s)"
    and "distinct nodes" and "set nodes \<subseteq> {0..<p}"
    and "\<forall>v<p. level \<le> getNeighbourCount (graph s) v - 1 \<longrightarrow> v \<in> set nodes"
  using assms unfolding level_inv_iff by blast+

section \<open>The runs on concrete inputs, evaluated\<close>

lemma example_instance_run: "PCAlgorithm 4 (1/20) 4 2 = Inr example_instance"
  by (simp add: example_instance_def PCAlgorithm_def INT_MAX_def)

lemma example_instance_run_4: "PCAlgorithm (int 4) (1/20) 4 2 = Inr example_instance"
  using example_instance_run by simp

lemma example_no_variables_run: "PCAlgorithm 0 (1/20) 10 1 = Inr example_no_variables"
  by (simp add: example_no_variables_def PCAlgorithm_def INT_MAX_def)

lemma example_negative_threads_run:
  "PCAlgorithm 4 (1/20) 10 (- 1) = Inr example_negative_threads"
  by (simp add: example_negative_threads_def PCAlgorithm_def INT_MAX_def)

lemma example_level0_run:
  "build_correlation_matrix zero_correlation 1 p_value_chain example_data example_instance =
   Inr example_level0"
  by code_simp

lemma example_final_run:
  "build_graph insertion_order rejects_2_1 example_level0 = Inr example_final"
  by code_simp

lemma example_level1_run:
  "level_body rejects_2_1 1 [0, 1, 2, 3] example_level0 = Inr (Continue example_level1 [1, 2])"
  by code_simp

lemma example_level2_run:
  "level_body rejects_2_1 2 [1, 2] example_level1 = Inr (Break example_level2)"
  by code_simp

lemma example_level0_graph: "graph example_level0 = [[1], [0, 2], [1, 3], [2]]"
  by code_simp

lemma example_level0_queue: "work_queue example_level0 = []"
  by code_simp




lemma example_complete_final_run:
  "build_graph insertion_order never_rejects example_complete = Inr example_complete_final"
  by code_simp

lemma example_complete_trace: "trace example_complete = []"
  by code_simp

lemma example_complete_final_trace:
  "trace example_complete_final =
     [EvEnqueue 1 (1, 0), EvEnqueue 1 (2, 0), EvEnqueue 1 (2, 1),
      EvEnqueue 1 (3, 0), EvEnqueue 1 (3, 1), EvEnqueue 1 (3, 2),
      EvSpawn 1 0, EvSpawn 1 1, EvJoin 1 0, EvJoin 1 1,
      EvEnqueue 2 (1, 0), EvEnqueue 2 (2, 0), EvEnqueue 2 (2, 1),
      EvEnqueue 2 (3, 0), EvEnqueue 2 (3, 1), EvEnqueue 2 (3, 2),
      EvSpawn 2 0, EvSpawn 2 1, EvJoin 2 0, EvJoin 2 1]"
  by code_simp

lemma example_products_run:
  "build_correlation_matrix sum_of_products 1 p_value_zero example_data example_instance =
   Inr example_products"
  by code_simp

lemma example_products_final_run:
  "build_graph insertion_order never_rejects example_products = Inr example_products_final"
  by code_simp

lemma example_final_cout_list:
  "cout example_final =
     [Str ''Deleted edges: '', Num 6, Endl,
      Str ''Starting to fill test_queue'', Endl,
      Str ''Queued all '', Num 3, Str '' pairs, waiting for results..'', Endl,
      Str ''All tests done for level '', Num 1, Chr CHR ''.'', Endl,
      Str ''No tests left for level '', Num 2, Chr CHR ''.'', Endl,
      Str ''Total independence tests made: '', Num 0, Endl]"
  by code_simp

lemma example_level0_cout:
  "cout example_level0 = cout example_instance @ [Str ''Deleted edges: '', Num 6, Endl]"
  by code_simp

section \<open>C1: each remaining edge is enqueued once\<close>

text \<open>
  C1 (as amended). Let \<open>{x, y}\<close> with \<open>y < x\<close> be an edge of the frozen graph, and let
  the pass run over a duplicate-free \<open>nodes_to_be_tested\<close> that holds every vertex with
  \<open>neighbor_count - 1 \<ge> level\<close>. When both endpoints have enough neighbours the
  higher-indexed endpoint \<open>x\<close> enqueues the edge, once, as \<open>(x, y)\<close>, and \<open>y\<close> does not
  enqueue it; when only one endpoint has enough neighbours that endpoint enqueues it,
  once; when neither has, it is not enqueued. So an edge is never enqueued twice and no
  eligible edge is skipped, and \<open>queue_size\<close> is the number of instructions enqueued.
  The hypotheses hold at every level of a run that started with
  \<open>build_correlation_matrix\<close> (lemmas \<open>level_inv_initial\<close> and \<open>level_inv_step\<close>).
\<close>

theorem fill_queue_enqueues_edge_once:
  assumes "wf_graph p (graph s)"
    and "distinct nodes"
    and "\<forall>v<p. level \<le> getNeighbourCount (graph s) v - 1 \<longrightarrow> v \<in> set nodes"
    and "y \<in> set (getNeighbours (graph s) x)" and "x < p" and "y < x"
  shows
    "(let enqueued = drop (length (work_queue s))
                       (work_queue (fst (fill_queue level nodes (s, 0, []))));
          enough_x = (level \<le> getNeighbourCount (graph s) x - 1);
          enough_y = (level \<le> getNeighbourCount (graph s) y - 1)
      in (enough_x \<and> enough_y \<longrightarrow>
            count_list enqueued (x, y) = 1 \<and> count_list enqueued (y, x) = 0) \<and>
         (enough_x \<and> \<not> enough_y \<longrightarrow>
            count_list enqueued (x, y) = 1 \<and> count_list enqueued (y, x) = 0) \<and>
         (\<not> enough_x \<and> enough_y \<longrightarrow>
            count_list enqueued (y, x) = 1 \<and> count_list enqueued (x, y) = 0) \<and>
         (\<not> enough_x \<and> \<not> enough_y \<longrightarrow>
            count_list enqueued (x, y) = 0 \<and> count_list enqueued (y, x) = 0) \<and>
         fst (snd (fill_queue level nodes (s, 0, []))) = int (length enqueued))"
proof -
  let ?g = "graph s"
  from assms(5,6) have yp: "y < p" by simp
  have xy: "y \<in> set (?g ! x)" "distinct (?g ! x)"
    using assms(4) wf_graph_distinct [OF assms(1,5)] by (simp_all add: getNeighbours_def)
  have yx: "x \<in> set (?g ! y)" "distinct (?g ! y)"
    using wf_graph_edge [OF assms(1,5) xy(1)] wf_graph_distinct [OF assms(1) yp] by simp_all
  have cx: "count_list (?g ! x) y = 1" using xy by (simp add: count_list_distinct)
  have cy: "count_list (?g ! y) x = 1" using yx by (simp add: count_list_distinct)
  have mx: "level \<le> getNeighbourCount ?g x - 1 \<Longrightarrow> x \<in> set nodes"
    using assms(3,5) by simp
  have my: "level \<le> getNeighbourCount ?g y - 1 \<Longrightarrow> y \<in> set nodes"
    using assms(3) yp by simp
  have e: "drop (length (work_queue s)) (work_queue (fst (fill_queue level nodes (s, 0, [])))) =
           level_instructions ?g level nodes"
    by (simp add: work_queue_fill_queue)
  have n: "fst (snd (fill_queue level nodes (s, 0, []))) =
           int (length (level_instructions ?g level nodes))"
    by (simp add: fill_queue_eq)
  show ?thesis
    unfolding Let_def e n
    using cx cy mx my assms(6)
    by (auto simp: count_level_instructions [OF assms(2)])
qed

theorem fill_queue_enqueues_edge_once_witness:
  "wf_graph 4 (graph example_level0) \<and> distinct [0, 1, 2, 3 :: nat] \<and>
   1 \<in> set (getNeighbours (graph example_level0) 2) \<and>
   1 \<le> getNeighbourCount (graph example_level0) 2 - 1 \<and>
   1 \<le> getNeighbourCount (graph example_level0) 1 - 1 \<and>
   count_list (drop (length (work_queue example_level0))
                 (work_queue (fst (fill_queue 1 [0, 1, 2, 3] (example_level0, 0, []))))) (2, 1) = 1 \<and>
   count_list (drop (length (work_queue example_level0))
                 (work_queue (fst (fill_queue 1 [0, 1, 2, 3] (example_level0, 0, []))))) (1, 2) = 0 \<and>
   fst (snd (fill_queue 1 [0, 1, 2, 3] (example_level0, 0, []))) =
     int (length (drop (length (work_queue example_level0))
                 (work_queue (fst (fill_queue 1 [0, 1, 2, 3] (example_level0, 0, []))))))"
proof -
  have w: "wf_graph 4 (graph example_level0)"
    unfolding example_level0_graph by code_simp
  have d: "distinct [0, 1, 2, 3 :: nat]" by simp
  have c: "\<forall>v<4. 1 \<le> getNeighbourCount (graph example_level0) v - 1 \<longrightarrow> v \<in> set [0, 1, 2, 3]"
    by auto
  have e: "1 \<in> set (getNeighbours (graph example_level0) 2)"
    unfolding example_level0_graph by code_simp
  have q2: "1 \<le> getNeighbourCount (graph example_level0) 2 - 1"
    unfolding example_level0_graph by code_simp
  have q1: "1 \<le> getNeighbourCount (graph example_level0) 1 - 1"
    unfolding example_level0_graph by code_simp
  from fill_queue_enqueues_edge_once [OF w d c e] q1 q2 w e
  show ?thesis by (simp add: Let_def)
qed

text \<open>
  C1 (as stated) fails on the chain 0 - 1 - 2 - 3 at level 1: both endpoints of the edge
  \<open>{1, 2}\<close> have two neighbours, yet the pass over the neighbours of the lower-indexed
  endpoint 1 enqueues \<open>(1, 0)\<close> only, and the edge is enqueued by the higher-indexed
  endpoint 2.
\<close>

theorem lower_endpoint_counterexample:
  "graph example_level0 = [[1], [0, 2], [1, 3], [2]] \<and>
   1 \<le> getNeighbourCount (graph example_level0) 1 - 1 \<and>
   1 \<le> getNeighbourCount (graph example_level0) 2 - 1 \<and>
   work_queue (fst (enqueue_neighbours 1 1 (getNeighbours (graph example_level0) 1)
                      (example_level0, 0))) = [(1, 0)] \<and>
   work_queue (fst (enqueue_neighbours 1 2 (getNeighbours (graph example_level0) 2)
                      (example_level0, 0))) = [(2, 1), (2, 3)] \<and>
   work_queue (fst (fill_queue 1 [0, 1, 2, 3] (example_level0, 0, []))) =
     [(1, 0), (2, 1), (2, 3)]"
  by code_simp

section \<open>C2: level 0 deletes an edge exactly when its p-value is at least alpha\<close>

text \<open>
  C2. After \<open>build_correlation_matrix\<close>, for every pair \<open>j < i\<close> of variables the edge
  \<open>{i, j}\<close> is in the graph exactly when it was there before and the p-value that the
  test object built from \<open>_nr_samples\<close> and the new correlation matrix returns for
  \<open>(i, j)\<close> with the empty conditioning set is below \<open>alpha\<close>: an edge is deleted if and
  only if that p-value is at least \<open>alpha\<close>. On a constructed instance every edge is
  there before.
\<close>

theorem level0_deletes_iff_p_value_ge_alpha:
  assumes "build_correlation_matrix gsl stride test data s = Inr s'"
    and "length (graph s) = nr_variables s"
    and "j < i" and "i < nr_variables s"
  shows "gauss_test s' = (nr_samples s, correlation s') \<and>
         (j \<in> set (getNeighbours (graph s') i) \<longleftrightarrow>
            j \<in> set (getNeighbours (graph s) i) \<and> \<not> test (gauss_test s') i j [] \<ge> alpha s) \<and>
         (i \<in> set (getNeighbours (graph s') j) \<longleftrightarrow>
            i \<in> set (getNeighbours (graph s) j) \<and> \<not> test (gauss_test s') i j [] \<ge> alpha s) \<and>
         (graph s = Graph (nr_variables s) \<longrightarrow>
            (j \<in> set (getNeighbours (graph s') i) \<longleftrightarrow> test (gauss_test s') i j [] < alpha s))"
proof -
  from build_correlation_matrix_InrE [OF assms(1)] obtain C d g where
    r: "level0_rows test (nr_samples s, C) (alpha s) [0..<nr_variables s] (0, graph s) = (d, g)"
    and s': "s' = s\<lparr> correlation := C, gauss_test := (nr_samples s, C), graph := g,
                     working_graph := Some g,
                     cout := cout s @ [Str ''Deleted edges: '', Num d, Endl] \<rparr>"
    by blast
  let ?t = "\<lambda>i j. alpha s \<le> test (nr_samples s, C) i j []"
  note m = level0_rows_graph [OF r, THEN conjunct2, rule_format]
  have e: "(\<exists>i'\<in>set [0..<nr_variables s]. \<exists>j'<i'. ?t i' j' \<and>
              ((i = i' \<and> j = j') \<or> (i = j' \<and> j = i'))) \<longleftrightarrow> ?t i j"
    using assms(3,4) by auto
  have e': "(\<exists>i'\<in>set [0..<nr_variables s]. \<exists>j'<i'. ?t i' j' \<and>
              ((j = i' \<and> i = j') \<or> (j = j' \<and> i = i'))) \<longleftrightarrow> ?t i j"
    using assms(3,4) by auto
  have a: "j \<in> set (g ! i) \<longleftrightarrow> j \<in> set (graph s ! i) \<and> \<not> ?t i j"
    using m [of i j] assms(2,4) unfolding e by simp
  have b: "i \<in> set (g ! j) \<longleftrightarrow> i \<in> set (graph s ! j) \<and> \<not> ?t i j"
    using m [of j i] assms(2,3,4) unfolding e' by simp
  have c: "graph s = Graph (nr_variables s) \<Longrightarrow> j \<in> set (graph s ! i)"
    using assms(3,4) by (simp add: Graph_def)
  from a b c s' show ?thesis
    by (auto simp: getNeighbours_def)
qed

theorem level0_deletes_iff_p_value_ge_alpha_witness:
  "build_correlation_matrix zero_correlation 1 p_value_chain example_data example_instance =
     Inr example_level0 \<and>
   length (graph example_instance) = nr_variables example_instance \<and>
   (0 :: nat) < 2 \<and> (1 :: nat) < 2 \<and> 2 < nr_variables example_instance \<and>
   graph example_instance = Graph (nr_variables example_instance) \<and>
   p_value_chain (gauss_test example_level0) 2 0 [] \<ge> alpha example_instance \<and>
   0 \<notin> set (getNeighbours (graph example_level0) 2) \<and>
   2 \<notin> set (getNeighbours (graph example_level0) 0) \<and>
   p_value_chain (gauss_test example_level0) 2 1 [] < alpha example_instance \<and>
   1 \<in> set (getNeighbours (graph example_level0) 2)"
proof -
  have l: "length (graph example_instance) = nr_variables example_instance" by code_simp
  have n: "2 < nr_variables example_instance" by code_simp
  have g: "graph example_instance = Graph (nr_variables example_instance)" by code_simp
  have p: "p_value_chain (gauss_test example_level0) 2 0 [] \<ge> alpha example_instance"
    by code_simp
  have q: "p_value_chain (gauss_test example_level0) 2 1 [] < alpha example_instance"
    by code_simp
  have z: "(0 :: nat) < 2" and o: "(1 :: nat) < 2" by simp_all
  from level0_deletes_iff_p_value_ge_alpha [OF example_level0_run l z n] p
  have a: "0 \<notin> set (getNeighbours (graph example_level0) 2)"
    "2 \<notin> set (getNeighbours (graph example_level0) 0)" by blast+
  from level0_deletes_iff_p_value_ge_alpha [OF example_level0_run l o n] g q
  have b: "1 \<in> set (getNeighbours (graph example_level0) 2)" by blast
  from a b l n g p q z o example_level0_run show ?thesis by blast
qed

section \<open>C3: the level loop terminates within p - 1 levels\<close>



section \<open>C4: the frozen graph is the copy of the working graph at every level boundary\<close>

text \<open>
  C4. After \<open>build_correlation_matrix\<close> the working graph is a copy of the frozen graph.
  At the end of every level, whether the loop goes on or stops there, the frozen graph
  is the copy of the working graph, which is what the workers of that level left. So
  the two graphs are equal whenever a level starts, and when \<open>build_graph\<close> returns.
\<close>

theorem dual_graph_discipline:
  "(build_correlation_matrix gsl stride test data s = Inr s1 \<longrightarrow>
      working_graph s1 = Some (graph s1)) \<and>
   (level_body verdict level nodes s = Inr (Continue s2 nodes') \<longrightarrow>
      Some (graph s2) = working_graph s2 \<and>
      working_graph s2 =
        working_graph (run_workers verdict level (fst (fill_queue level nodes (s, 0, []))))) \<and>
   (level_body verdict level nodes s = Inr (Break s3) \<longrightarrow>
      Some (graph s3) = working_graph s3 \<and> working_graph s3 = working_graph s) \<and>
   (working_graph s = Some (graph s) \<and> build_graph order verdict s = Inr s4 \<longrightarrow>
      working_graph s4 = Some (graph s4))"
proof (intro conjI impI)
  assume "build_correlation_matrix gsl stride test data s = Inr s1"
  from build_correlation_matrix_InrE [OF this]
  show "working_graph s1 = Some (graph s1)" by auto
next
  assume b: "level_body verdict level nodes s = Inr (Continue s2 nodes')"
  from level_body_ContinueE [OF b] obtain w where
    w: "working_graph s = Some w" "s2 = after_level verdict level nodes s" by blast
  from after_level_working [OF w(1), of verdict level nodes] w(2)
  show "Some (graph s2) = working_graph s2" by auto
  from w(2) show "working_graph s2 =
        working_graph (run_workers verdict level (fst (fill_queue level nodes (s, 0, []))))"
    by (simp add: after_level_working_graph)
next
  assume b: "level_body verdict level nodes s = Inr (Break s3)"
  from level_body_BreakE [OF b]
  show "Some (graph s3) = working_graph s3" "working_graph s3 = working_graph s" by auto
next
  assume a: "working_graph s = Some (graph s) \<and> build_graph order verdict s = Inr s4"
  from build_graph_InrE [of order verdict s s4] a obtain t l where
    l: "level_loop verdict 1 (order [0..<nr_variables s])
          (s\<lparr> cout := cout s @ [Str ''Starting to fill test_queue'', Endl] \<rparr>) = Inr (t, l)"
    and s4: "s4 = t\<lparr> cout := cout t @ [Str ''Total independence tests made: '', Num 0, Endl] \<rparr>"
    by blast
  from level_loop_promoted [OF l] a have "working_graph t = Some (graph t)" by simp
  with s4 show "working_graph s4 = Some (graph s4)" by simp
qed

theorem dual_graph_discipline_witness:
  "build_correlation_matrix zero_correlation 1 p_value_chain example_data example_instance =
     Inr example_level0 \<and>
   working_graph example_level0 = Some (graph example_level0) \<and>
   level_body rejects_2_1 1 [0, 1, 2, 3] example_level0 = Inr (Continue example_level1 [1, 2]) \<and>
   Some (graph example_level1) = working_graph example_level1 \<and>
   working_graph example_level1 =
     working_graph (run_workers rejects_2_1 1 (fst (fill_queue 1 [0, 1, 2, 3] (example_level0, 0, [])))) \<and>
   level_body rejects_2_1 2 [1, 2] example_level1 = Inr (Break example_level2) \<and>
   Some (graph example_level2) = working_graph example_level2 \<and>
   working_graph example_level2 = working_graph example_level1 \<and>
   build_graph insertion_order rejects_2_1 example_level0 = Inr example_final \<and>
   working_graph example_final = Some (graph example_final) \<and>
   graph example_final = [[1], [0], [3], [2]]"
proof -
  have g: "graph example_final = [[1], [0], [3], [2]]" by code_simp
  from dual_graph_discipline [where gsl = zero_correlation and stride = 1 and test = p_value_chain
      and data = example_data and s = example_instance and ?s1.0 = example_level0]
    example_level0_run
  have a: "working_graph example_level0 = Some (graph example_level0)" by blast
  from dual_graph_discipline [where verdict = rejects_2_1 and level = 1 and nodes = "[0, 1, 2, 3]"
      and s = example_level0 and ?s2.0 = example_level1 and nodes' = "[1, 2]"
      and order = insertion_order and ?s4.0 = example_final]
    example_level1_run example_final_run a
  have b: "Some (graph example_level1) = working_graph example_level1"
    "working_graph example_level1 =
     working_graph (run_workers rejects_2_1 1 (fst (fill_queue 1 [0, 1, 2, 3] (example_level0, 0, []))))"
    "working_graph example_final = Some (graph example_final)" by blast+
  from dual_graph_discipline [where verdict = rejects_2_1 and level = 2 and nodes = "[1, 2]"
      and s = example_level1 and ?s3.0 = example_level2]
    example_level2_run
  have c: "Some (graph example_level2) = working_graph example_level2"
    "working_graph example_level2 = working_graph example_level1" by blast+
  from a b c g example_level0_run example_level1_run example_level2_run example_final_run
  show ?thesis by simp
qed

section \<open>C5: the constructor and invalid inputs\<close>

text \<open>
  C5 (as amended). The constructor does not detect an invalid \<open>alpha\<close>, an invalid
  \<open>samples\<close> or a \<open>vars\<close> of 0 or 1: for every \<open>vars\<close> from 0 to 46340 and every
  \<open>alpha\<close>, \<open>samples\<close> and \<open>numberThreads\<close> it returns an instance that stores the
  arguments as they are, with the complete graph, the identity correlation matrix and a
  null working graph. Whether construction fails does not depend on \<open>alpha\<close>,
  \<open>samples\<close> or \<open>numberThreads\<close>: it fails exactly when \<open>vars\<close> is negative or
  \<open>vars * vars\<close> does not fit an \<open>int\<close>. The data are not an argument of the
  constructor.
\<close>

theorem constructor_validates_nothing:
  "(0 \<le> vars \<and> vars \<le> 46340 \<longrightarrow>
      (\<exists>s. PCAlgorithm vars a n K = Inr s \<and>
           nr_variables s = nat vars \<and> alpha s = a \<and> nr_samples s = n \<and> nr_threads s = K \<and>
           graph s = Graph (nat vars) \<and> working_graph s = None \<and>
           correlation s = eye (nat vars) \<and> work_queue s = [] \<and>
           separation_matrix s = replicate (nat vars * nat vars) None)) \<and>
   (isl (PCAlgorithm vars a n K) \<longleftrightarrow> vars < 0 \<or> 46340 < vars)"
proof (intro conjI impI)
  assume "0 \<le> vars \<and> vars \<le> 46340"
  then have "0 \<le> vars" and "vars \<le> 46340" by simp_all
  from PCAlgorithm_Inr [OF this, of a n K]
  show "\<exists>s. PCAlgorithm vars a n K = Inr s \<and>
           nr_variables s = nat vars \<and> alpha s = a \<and> nr_samples s = n \<and> nr_threads s = K \<and>
           graph s = Graph (nat vars) \<and> working_graph s = None \<and>
           correlation s = eye (nat vars) \<and> work_queue s = [] \<and>
           separation_matrix s = replicate (nat vars * nat vars) None" by simp
next
  show "isl (PCAlgorithm vars a n K) \<longleftrightarrow> vars < 0 \<or> 46340 < vars"
    by (rule PCAlgorithm_isl)
qed

theorem constructor_validates_nothing_witness:
  "(0::int) \<le> 1 \<and> (1::int) \<le> 46340 \<and>
   (\<exists>s. PCAlgorithm 1 2 0 (- 1) = Inr s \<and>
        nr_variables s = 1 \<and> alpha s = 2 \<and> nr_samples s = 0 \<and> nr_threads s = - 1 \<and>
        graph s = Graph 1 \<and> working_graph s = None \<and> correlation s = eye 1 \<and>
        work_queue s = [] \<and> separation_matrix s = replicate 1 None) \<and>
   \<not> isl (PCAlgorithm 1 2 0 (- 1)) \<and>
   isl (PCAlgorithm (- 1) (1/20) 10 1) \<and> isl (PCAlgorithm 46341 (1/20) 10 1)"
  using constructor_validates_nothing [of 1 2 0 "- 1"]
    constructor_validates_nothing [of "- 1" "1/20" 10 1]
    constructor_validates_nothing [of 46341 "1/20" 10 1]
  by simp

text \<open>
  C5 (as stated) fails: with \<open>alpha = 2\<close>, \<open>samples = 0\<close> and a single variable, all
  three invalid, construction succeeds, and both operations run on the instance.
\<close>

theorem constructor_invalid_input_counterexample:
  "\<not> (0 < (2::real) \<and> (2::real) < 1) \<and> (0::int) \<le> 3 \<and> (1::int) < 2 \<and>
   \<not> isl (PCAlgorithm 1 2 0 1) \<and>
   \<not> isl (and_then (and_then (PCAlgorithm 1 2 0 1)
                      (build_correlation_matrix zero_correlation 1 p_value_zero [[]]))
            (build_graph insertion_order never_rejects))"
  by code_simp

section \<open>C6: the queue is filled before the workers are created\<close>

text \<open>
  C6. In the program order of the engine thread, a level that runs tests first enqueues
  all instructions of the level, then creates the \<open>_nr_threads\<close> workers, then joins
  them. Over a whole run of \<open>build_graph\<close>, no instruction of a level is enqueued after
  a worker of that level has been created.
\<close>

theorem queue_filled_before_workers:
  "(level_body verdict level nodes s = Inr (Continue s1 nodes') \<longrightarrow>
      trace s1 =
        trace s @
        map (EvEnqueue level)
          (drop (length (work_queue s)) (work_queue (fst (fill_queue level nodes (s, 0, []))))) @
        map (EvSpawn level) [0..<nat (nr_threads s)] @ map (EvJoin level) [0..<nat (nr_threads s)]) \<and>
   (build_graph order verdict s = Inr s' \<longrightarrow>
      (\<exists>tr. trace s' = trace s @ tr \<and>
            (\<forall>a l k b ti. tr = a @ EvSpawn l k # b \<longrightarrow> EvEnqueue l ti \<notin> set b)))"
proof (intro conjI impI)
  assume "level_body verdict level nodes s = Inr (Continue s1 nodes')"
  from level_body_trace [OF this] show "trace s1 =
        trace s @
        map (EvEnqueue level)
          (drop (length (work_queue s)) (work_queue (fst (fill_queue level nodes (s, 0, []))))) @
        map (EvSpawn level) [0..<nat (nr_threads s)] @ map (EvJoin level) [0..<nat (nr_threads s)]" .
next
  assume "build_graph order verdict s = Inr s'"
  from build_graph_InrE [OF this] obtain t l where
    l: "level_loop verdict 1 (order [0..<nr_variables s])
          (s\<lparr> cout := cout s @ [Str ''Starting to fill test_queue'', Endl] \<rparr>) = Inr (t, l)"
    and s': "s' = t\<lparr> cout := cout t @ [Str ''Total independence tests made: '', Num 0, Endl] \<rparr>"
    by blast
  from level_loop_trace [OF l] obtain tr where "trace t = trace s @ tr" "no_late_enqueue tr"
    by auto
  with s' show "\<exists>tr. trace s' = trace s @ tr \<and>
            (\<forall>a l k b ti. tr = a @ EvSpawn l k # b \<longrightarrow> EvEnqueue l ti \<notin> set b)"
    unfolding no_late_enqueue_split by auto
qed

theorem queue_filled_before_workers_witness:
  "level_body rejects_2_1 1 [0, 1, 2, 3] example_level0 = Inr (Continue example_level1 [1, 2]) \<and>
   trace example_level1 =
     trace example_level0 @
     map (EvEnqueue 1)
       (drop (length (work_queue example_level0))
          (work_queue (fst (fill_queue 1 [0, 1, 2, 3] (example_level0, 0, []))))) @
     map (EvSpawn 1) [0..<nat (nr_threads example_level0)] @
     map (EvJoin 1) [0..<nat (nr_threads example_level0)] \<and>
   build_graph insertion_order never_rejects example_complete = Inr example_complete_final \<and>
   (\<forall>ti. EvEnqueue 1 ti \<notin>
      set [EvSpawn 1 1, EvJoin 1 0, EvJoin 1 1,
           EvEnqueue 2 (1, 0), EvEnqueue 2 (2, 0), EvEnqueue 2 (2, 1),
           EvEnqueue 2 (3, 0), EvEnqueue 2 (3, 1), EvEnqueue 2 (3, 2),
           EvSpawn 2 0, EvSpawn 2 1, EvJoin 2 0, EvJoin 2 1])"
proof -
  from queue_filled_before_workers [where verdict = rejects_2_1 and level = 1
      and nodes = "[0, 1, 2, 3]" and s = example_level0 and ?s1.0 = example_level1
      and nodes' = "[1, 2]"] example_level1_run
  have a: "trace example_level1 =
     trace example_level0 @
     map (EvEnqueue 1)
       (drop (length (work_queue example_level0))
          (work_queue (fst (fill_queue 1 [0, 1, 2, 3] (example_level0, 0, []))))) @
     map (EvSpawn 1) [0..<nat (nr_threads example_level0)] @
     map (EvJoin 1) [0..<nat (nr_threads example_level0)]" by blast
  from queue_filled_before_workers [where verdict = never_rejects and order = insertion_order
      and s = example_complete and s' = example_complete_final] example_complete_final_run
  obtain tr where tr: "trace example_complete_final = trace example_complete @ tr"
    "\<forall>a l k b ti. tr = a @ EvSpawn l k # b \<longrightarrow> EvEnqueue l ti \<notin> set b" by blast
  from tr(1) have "tr =
     [EvEnqueue 1 (1, 0), EvEnqueue 1 (2, 0), EvEnqueue 1 (2, 1),
      EvEnqueue 1 (3, 0), EvEnqueue 1 (3, 1), EvEnqueue 1 (3, 2)] @
      EvSpawn 1 0 # [EvSpawn 1 1, EvJoin 1 0, EvJoin 1 1,
      EvEnqueue 2 (1, 0), EvEnqueue 2 (2, 0), EvEnqueue 2 (2, 1),
      EvEnqueue 2 (3, 0), EvEnqueue 2 (3, 1), EvEnqueue 2 (3, 2),
      EvSpawn 2 0, EvSpawn 2 1, EvJoin 2 0, EvJoin 2 1]"
    by (simp add: example_complete_trace example_complete_final_trace)
  with tr(2) have b: "\<forall>ti. EvEnqueue 1 ti \<notin>
      set [EvSpawn 1 1, EvJoin 1 0, EvJoin 1 1,
           EvEnqueue 2 (1, 0), EvEnqueue 2 (2, 0), EvEnqueue 2 (2, 1),
           EvEnqueue 2 (3, 0), EvEnqueue 2 (3, 1), EvEnqueue 2 (3, 2),
           EvSpawn 2 0, EvSpawn 2 1, EvJoin 2 0, EvJoin 2 1]" by blast
  from a b example_level1_run example_complete_final_run show ?thesis by blast
qed

section \<open>C7: the correlation matrix\<close>

text \<open>
  C7. On a constructed instance, after \<open>build_correlation_matrix\<close> has returned the
  correlation matrix has \<open>p\<close> rows of length \<open>p\<close>, its diagonal is 1, it is symmetric,
  and for \<open>j < i\<close> the entry \<open>(i, j)\<close> is what \<open>gsl_stats_correlation\<close> returns on the
  entries read from rows \<open>i\<close> and \<open>j\<close> of the data: with \<open>STRIDE = 1\<close> and rows as
  long as the first, on the rows themselves. \<open>build_graph\<close> leaves the matrix as it is.
\<close>

theorem correlation_matrix_after_build:
  assumes "PCAlgorithm (int p) a n K = Inr s0"
    and "build_correlation_matrix gsl stride test data s0 = Inr s1"
  shows "length (correlation s1) = p \<and>
         (\<forall>i<p. length (correlation s1 ! i) = p \<and> correlation s1 ! i ! i = 1) \<and>
         (\<forall>i<p. \<forall>j<p. correlation s1 ! i ! j = correlation s1 ! j ! i) \<and>
         (\<forall>i<p. \<forall>j<i. correlation s1 ! i ! j =
            gsl (map (\<lambda>k. data ! i ! (k * stride)) [0..<length (data ! 0)])
                (map (\<lambda>k. data ! j ! (k * stride)) [0..<length (data ! 0)])) \<and>
         (stride = 1 \<and> (\<forall>i<p. length (data ! i) = length (data ! 0)) \<longrightarrow>
            (\<forall>i<p. \<forall>j<i. correlation s1 ! i ! j = gsl (data ! i) (data ! j))) \<and>
         (\<forall>order verdict s2. build_graph order verdict s1 = Inr s2 \<longrightarrow>
            correlation s2 = correlation s1)"
proof -
  let ?m = "length (data ! 0)"
  let ?v = "\<lambda>i j. gsl (row_view data i stride ?m) (row_view data j stride ?m)"
  let ?C = "fold (\<lambda>i. fold (set_pair ?v i) [0..<i]) [0..<p] (eye p)"
  from assms(1) have s0: "nr_variables s0 = p" "correlation s0 = eye p"
    by (auto simp: PCAlgorithm_def split: if_splits)
  from build_correlation_matrix_correlation [OF assms(2)] s0
  have C: "correlation s1 = ?C" by simp
  have "is": "\<forall>i\<in>set [0..<p]. i < p" by simp
  note sq = square_fold_rows [OF square_eye, of p ?v "[0..<p]"]
  have lower: "?C ! i ! j = ?v i j" if "i < p" "j < i" for i j
    using that by (intro fold_rows_hit1 [OF that(2) square_eye "is"]) simp
  have upper: "?C ! i ! j = ?v j i" if "j < p" "i < j" for i j
    using that by (intro fold_rows_hit2 [OF that(2) square_eye "is"]) simp
  have diag: "?C ! i ! i = 1" if "i < p" for i
  proof -
    have "?C ! i ! i = eye p ! i ! i"
      by (rule fold_rows_miss [OF that that square_eye "is"]) simp_all
    with that show ?thesis by (simp add: eye_nth)
  qed
  have sym: "?C ! i ! j = ?C ! j ! i" if "i < p" "j < p" for i j
  proof -
    consider "i < j" | "j < i" | "i = j" by linarith
    then show ?thesis
    proof cases
      case 1
      with upper [OF that(2) 1] lower [OF that(2) 1] show ?thesis by simp
    next
      case 2
      with upper [OF that(1) 2] lower [OF that(1) 2] show ?thesis by simp
    next
      case 3
      then show ?thesis by simp
    qed
  qed
  have rows: "row_view data i 1 ?m = data ! i" if "length (data ! i) = ?m" for i
    using that map_nth [of "data ! i"] by (simp add: row_view_def)
  show ?thesis
    unfolding C
  proof (intro conjI allI impI)
    show "length ?C = p" using sq by (simp add: square_def)
  next
    fix i assume "i < p"
    then show "length (?C ! i) = p" by (rule square_nth [OF sq])
  next
    fix i assume "i < p"
    then show "?C ! i ! i = 1" by (rule diag)
  next
    fix i j assume "i < p" "j < p"
    then show "?C ! i ! j = ?C ! j ! i" by (rule sym)
  next
    fix i j assume "i < p" "j < i"
    from lower [OF this] show "?C ! i ! j =
            gsl (map (\<lambda>k. data ! i ! (k * stride)) [0..<length (data ! 0)])
                (map (\<lambda>k. data ! j ! (k * stride)) [0..<length (data ! 0)])"
      by (simp add: row_view_def)
  next
    fix i j
    assume r: "stride = 1 \<and> (\<forall>i<p. length (data ! i) = length (data ! 0))"
      and i: "i < p" and j: "j < i"
    from r have st: "stride = 1" and len: "\<forall>i<p. length (data ! i) = length (data ! 0)"
      by blast+
    from i j have jp: "j < p" by simp
    from len i have "length (data ! i) = ?m" by blast
    from rows [OF this] have ri: "row_view data i stride ?m = data ! i" unfolding st .
    from len jp have "length (data ! j) = ?m" by blast
    from rows [OF this] have rj: "row_view data j stride ?m = data ! j" unfolding st .
    from lower [OF i j] show "?C ! i ! j = gsl (data ! i) (data ! j)" unfolding ri rj .
  next
    fix order verdict s2
    assume "build_graph order verdict s1 = Inr s2"
    from build_graph_correlation [OF this] C show "correlation s2 = ?C" by simp
  qed
qed

theorem correlation_matrix_after_build_witness:
  "PCAlgorithm 4 (1/20) 4 2 = Inr example_instance \<and>
   build_correlation_matrix sum_of_products 1 p_value_zero example_data example_instance =
     Inr example_products \<and>
   length (correlation example_products) = 4 \<and>
   length (correlation example_products ! 2) = 4 \<and>
   correlation example_products ! 2 ! 2 = 1 \<and>
   correlation example_products ! 0 ! 1 = correlation example_products ! 1 ! 0 \<and>
   correlation example_products ! 1 ! 0 = sum_of_products (example_data ! 1) (example_data ! 0) \<and>
   sum_of_products (example_data ! 1) (example_data ! 0) = 28 \<and>
   build_graph insertion_order never_rejects example_products = Inr example_products_final \<and>
   correlation example_products_final = correlation example_products"
proof -
  have r: "(1 :: nat) = 1 \<and> (\<forall>i<4. length (example_data ! i) = length (example_data ! 0))"
    by (simp add: example_data_def All_less_Suc numeral_nat)
  have v: "sum_of_products (example_data ! 1) (example_data ! 0) = 28"
    by code_simp
  note t = correlation_matrix_after_build [OF example_instance_run_4 example_products_run]
  from t have f1: "length (correlation example_products) = 4" by (elim conjE)
  from t have d: "\<forall>i<4. length (correlation example_products ! i) = 4 \<and>
      correlation example_products ! i ! i = 1" by (elim conjE)
  then have f2: "length (correlation example_products ! 2) = 4"
    and f3: "correlation example_products ! 2 ! 2 = 1" by simp_all
  from t have "\<forall>i<4. \<forall>j<4. correlation example_products ! i ! j =
      correlation example_products ! j ! i" by (elim conjE)
  then have f4: "correlation example_products ! 0 ! 1 = correlation example_products ! 1 ! 0"
    by simp
  from t have "(1 :: nat) = 1 \<and> (\<forall>i<4. length (example_data ! i) = length (example_data ! 0)) \<longrightarrow>
      (\<forall>i<4. \<forall>j<i. correlation example_products ! i ! j =
         sum_of_products (example_data ! i) (example_data ! j))"
    by (elim conjE)
  from this r have "\<forall>i<4. \<forall>j<i. correlation example_products ! i ! j =
         sum_of_products (example_data ! i) (example_data ! j)" by (rule mp)
  then have f5: "correlation example_products ! 1 ! 0 =
      sum_of_products (example_data ! 1) (example_data ! 0)" by simp
  from t have "\<forall>order verdict s2. build_graph order verdict example_products = Inr s2 \<longrightarrow>
      correlation s2 = correlation example_products" by (elim conjE)
  with example_products_final_run have
    f6: "correlation example_products_final = correlation example_products" by blast
  show ?thesis
    by (intro conjI example_instance_run example_products_run f1 f2 f3 f4 f5 v
        example_products_final_run f6)
qed

section \<open>C8: standard output\<close>

text \<open>
  C8 (as amended). Both operations write to standard output on every input on which
  they return. \<open>build_graph\<close> writes the line "Starting to fill test_queue"; then, level
  by level from level 1, for every level but the last the two lines "Queued all q pairs,
  waiting for results.." and "All tests done for level l.", where \<open>q > 0\<close> is the number
  of pairs that the pass of the level has enqueued, and for the last level, whose pass
  enqueues nothing, the single line "No tests left for level l."; then the line "Total
  independence tests made: 0". Without variables it writes the first and the last line
  only. \<open>build_correlation_matrix\<close> writes the line "Deleted edges: d", where \<open>d\<close> is the
  counter of the level-0 loops.
\<close>

theorem engine_writes_stdout:
  "(build_graph order verdict s = Inr s' \<longrightarrow>
      (\<exists>qss. cout s' = cout s @ [Str ''Starting to fill test_queue'', Endl] @
                  levels_lines 1 (map (\<lambda>q. int (length q)) qss) @
                  [Str ''Total independence tests made: '', Num 0, Endl] \<and>
             trace s' = trace s @ levels_events (nr_threads s) 1 qss \<and>
             list_all (\<lambda>q. q \<noteq> []) (butlast qss) \<and>
             (if order [0..<nr_variables s] = [] then qss = []
              else qss \<noteq> [] \<and> last qss = []))) \<and>
   (build_correlation_matrix gsl stride test data s = Inr s'' \<longrightarrow>
      cout s'' = cout s @
        [Str ''Deleted edges: '',
         Num (fst (level0_rows test (gauss_test s'') (alpha s) [0..<nr_variables s] (0, graph s))),
         Endl])"
proof (intro conjI impI)
  assume "build_graph order verdict s = Inr s'"
  from build_graph_InrE [OF this] obtain t l where
    l: "level_loop verdict 1 (order [0..<nr_variables s])
          (s\<lparr> cout := cout s @ [Str ''Starting to fill test_queue'', Endl] \<rparr>) = Inr (t, l)"
    and s': "s' = t\<lparr> cout := cout t @ [Str ''Total independence tests made: '', Num 0, Endl] \<rparr>"
    by blast
  from level_loop_output [OF l] obtain qss where
    c: "cout t = (cout s @ [Str ''Starting to fill test_queue'', Endl]) @
          levels_lines 1 (map (\<lambda>q. int (length q)) qss)"
    and e: "trace t = trace s @ levels_events (nr_threads s) 1 qss"
    and q: "list_all (\<lambda>q. q \<noteq> []) (butlast qss)"
      "if order [0..<nr_variables s] = [] then qss = [] else qss \<noteq> [] \<and> last qss = []"
    by auto
  from c s' have "cout s' = cout s @ [Str ''Starting to fill test_queue'', Endl] @
                  levels_lines 1 (map (\<lambda>q. int (length q)) qss) @
                  [Str ''Total independence tests made: '', Num 0, Endl]" by simp
  moreover from e s' have "trace s' = trace s @ levels_events (nr_threads s) 1 qss" by simp
  ultimately show "\<exists>qss. cout s' = cout s @ [Str ''Starting to fill test_queue'', Endl] @
                  levels_lines 1 (map (\<lambda>q. int (length q)) qss) @
                  [Str ''Total independence tests made: '', Num 0, Endl] \<and>
             trace s' = trace s @ levels_events (nr_threads s) 1 qss \<and>
             list_all (\<lambda>q. q \<noteq> []) (butlast qss) \<and>
             (if order [0..<nr_variables s] = [] then qss = []
              else qss \<noteq> [] \<and> last qss = [])"
    using q by blast
next
  assume "build_correlation_matrix gsl stride test data s = Inr s''"
  from build_correlation_matrix_InrE [OF this] obtain C d g where
    r: "level0_rows test (nr_samples s, C) (alpha s) [0..<nr_variables s] (0, graph s) = (d, g)"
    and s'': "s'' = s\<lparr> correlation := C, gauss_test := (nr_samples s, C), graph := g,
                     working_graph := Some g,
                     cout := cout s @ [Str ''Deleted edges: '', Num d, Endl] \<rparr>"
    by blast
  from s'' have "gauss_test s'' = (nr_samples s, C)" by simp
  with r have "fst (level0_rows test (gauss_test s'') (alpha s) [0..<nr_variables s] (0, graph s)) = d"
    by simp
  with s'' show "cout s'' = cout s @
        [Str ''Deleted edges: '',
         Num (fst (level0_rows test (gauss_test s'') (alpha s) [0..<nr_variables s] (0, graph s))),
         Endl]" by simp
qed

theorem engine_writes_stdout_witness:
  "build_graph insertion_order rejects_2_1 example_level0 = Inr example_final \<and>
   (\<exists>qss. cout example_final =
      cout example_level0 @ [Str ''Starting to fill test_queue'', Endl] @
      levels_lines 1 (map (\<lambda>q. int (length q)) qss) @
      [Str ''Total independence tests made: '', Num 0, Endl] \<and>
      trace example_final = trace example_level0 @ levels_events (nr_threads example_level0) 1 qss \<and>
      list_all (\<lambda>q. q \<noteq> []) (butlast qss) \<and> qss \<noteq> [] \<and> last qss = []) \<and>
   cout example_final =
     [Str ''Deleted edges: '', Num 6, Endl,
      Str ''Starting to fill test_queue'', Endl,
      Str ''Queued all '', Num 3, Str '' pairs, waiting for results..'', Endl,
      Str ''All tests done for level '', Num 1, Chr CHR ''.'', Endl,
      Str ''No tests left for level '', Num 2, Chr CHR ''.'', Endl,
      Str ''Total independence tests made: '', Num 0, Endl] \<and>
   build_correlation_matrix zero_correlation 1 p_value_chain example_data example_instance =
     Inr example_level0 \<and>
   cout example_level0 = cout example_instance @ [Str ''Deleted edges: '', Num 6, Endl]"
proof -
  have n: "insertion_order [0..<nr_variables example_level0] \<noteq> []"
    by code_simp
  from engine_writes_stdout [where order = insertion_order and verdict = rejects_2_1
      and s = example_level0 and s' = example_final] example_final_run n
  have a: "\<exists>qss. cout example_final =
      cout example_level0 @ [Str ''Starting to fill test_queue'', Endl] @
      levels_lines 1 (map (\<lambda>q. int (length q)) qss) @
      [Str ''Total independence tests made: '', Num 0, Endl] \<and>
      trace example_final = trace example_level0 @ levels_events (nr_threads example_level0) 1 qss \<and>
      list_all (\<lambda>q. q \<noteq> []) (butlast qss) \<and> qss \<noteq> [] \<and> last qss = []" by simp
  from engine_writes_stdout [where gsl = zero_correlation and stride = 1 and test = p_value_chain
      and data = example_data and s = example_instance and s'' = example_level0]
    example_level0_run
  have "cout example_level0 = cout example_instance @
      [Str ''Deleted edges: '',
       Num (fst (level0_rows p_value_chain (gauss_test example_level0) (alpha example_instance)
                   [0..<nr_variables example_instance] (0, graph example_instance))),
       Endl]" by simp
  with example_level0_cout have b:
    "cout example_level0 = cout example_instance @ [Str ''Deleted edges: '', Num 6, Endl]"
    by simp
  show ?thesis
    by (intro conjI example_final_run a example_final_cout_list example_level0_run b)
qed

text \<open>
  C8 (as stated) fails: on one variable with one sample, the two operations leave these
  lines on standard output.
\<close>

theorem engine_silent_counterexample:
  "map_sum id cout
     (and_then (and_then (PCAlgorithm 1 (1/20) 10 1)
                  (build_correlation_matrix zero_correlation 1 p_value_zero [[0]]))
        (build_graph insertion_order never_rejects)) =
   Inr [Str ''Deleted edges: '', Num 0, Endl,
        Str ''Starting to fill test_queue'', Endl,
        Str ''No tests left for level '', Num 1, Chr CHR ''.'', Endl,
        Str ''Total independence tests made: '', Num 0, Endl]"
  by code_simp

section \<open>C9: build_graph needs the working graph\<close>

text \<open>
  C9 (as amended). The constructor leaves the working-graph pointer null, only
  \<open>build_correlation_matrix\<close> sets it, and \<open>build_graph\<close> dereferences it at the end of
  every level that it enters. So on a freshly constructed instance with at least one
  variable and a non-negative thread count \<open>build_graph\<close> dereferences the null
  pointer, whatever the workers do. On a freshly constructed instance without
  variables the level loop is not entered and \<open>build_graph\<close> returns without
  dereferencing the pointer, which stays null; with a negative thread count
  \<open>build_graph\<close> fails at line 17, before the loop.
\<close>

theorem build_graph_needs_working_graph:
  assumes "PCAlgorithm vars a n K = Inr s"
    and "set (order [0..<nat vars]) = {0..<nat vars}"
  shows "working_graph s = None \<and>
         (0 < vars \<and> 0 \<le> K \<longrightarrow> build_graph order verdict s = Inl NullPointerDereference) \<and>
         (vars = 0 \<and> 0 \<le> K \<longrightarrow>
            build_graph order verdict s =
              Inr (s\<lparr> cout := cout s @ [Str ''Starting to fill test_queue'', Endl,
                                       Str ''Total independence tests made: '', Num 0, Endl] \<rparr>)) \<and>
         (K < 0 \<longrightarrow> build_graph order verdict s = Inl LengthError) \<and>
         (\<forall>s1. build_correlation_matrix gsl stride test data s = Inr s1 \<longrightarrow>
               working_graph s1 \<noteq> None) \<and>
         (\<forall>t t2. working_graph t = None \<and> build_graph order verdict t = Inr t2 \<longrightarrow>
                 working_graph t2 = None)"
proof (intro conjI impI allI)
  note c = PCAlgorithm_InrE [OF assms(1)]
  from c(3) show none: "working_graph s = None" by simp
  from c(3) have p: "nr_variables s = nat vars" and k: "nr_threads s = K" by simp_all
  {
    assume a: "0 < vars \<and> 0 \<le> K"
    with assms(2) have "0 \<in> set (order [0..<nat vars])" by simp
    with p have "order [0..<nr_variables s] \<noteq> []" by auto
    from build_graph_null [where order = order and s = s, OF none this] a k
    show "build_graph order verdict s = Inl NullPointerDereference" by simp
  }
  {
    assume a: "vars = 0 \<and> 0 \<le> K"
    with assms(2) have "order [0..<nr_variables s] = []" by (simp add: p)
    with a k show "build_graph order verdict s =
        Inr (s\<lparr> cout := cout s @ [Str ''Starting to fill test_queue'', Endl,
                                 Str ''Total independence tests made: '', Num 0, Endl] \<rparr>)"
      by (simp add: build_graph_def level_loop_Nil)
  }
  {
    assume "K < 0"
    with k show "build_graph order verdict s = Inl LengthError"
      by (simp add: build_graph_LengthError)
  }
  {
    fix s1
    assume "build_correlation_matrix gsl stride test data s = Inr s1"
    from build_correlation_matrix_InrE [OF this]
    show "working_graph s1 \<noteq> None" by auto
  }
  fix t t2
  assume "working_graph t = None \<and> build_graph order verdict t = Inr t2"
  then have n: "working_graph t = None" and r: "build_graph order verdict t = Inr t2"
    by simp_all
  from build_graph_threads [OF r] have k: "0 \<le> nr_threads t" .
  have "order [0..<nr_variables t] = []"
  proof (rule ccontr)
    assume "order [0..<nr_variables t] \<noteq> []"
    from build_graph_null [where order = order and s = t, OF n this k, of verdict] r
    show False by simp
  qed
  with r k n show "working_graph t2 = None"
    by (auto simp: build_graph_def level_loop_Nil)
qed

theorem build_graph_needs_working_graph_witness:
  "PCAlgorithm 4 (1/20) 4 2 = Inr example_instance \<and>
   set (insertion_order [0..<nat 4]) = {0..<nat 4} \<and>
   working_graph example_instance = None \<and> (0::int) < 4 \<and> (0::int) \<le> 2 \<and>
   build_graph insertion_order rejects_2_1 example_instance = Inl NullPointerDereference \<and>
   build_correlation_matrix zero_correlation 1 p_value_chain example_data example_instance =
     Inr example_level0 \<and>
   working_graph example_level0 \<noteq> None \<and>
   PCAlgorithm 0 (1/20) 10 1 = Inr example_no_variables \<and>
   build_graph insertion_order never_rejects example_no_variables =
     Inr (example_no_variables
           \<lparr> cout := cout example_no_variables @
                [Str ''Starting to fill test_queue'', Endl,
                 Str ''Total independence tests made: '', Num 0, Endl] \<rparr>) \<and>
   PCAlgorithm 4 (1/20) 10 (- 1) = Inr example_negative_threads \<and>
   build_graph insertion_order never_rejects example_negative_threads = Inl LengthError"
proof -
  have o: "set (insertion_order [0..<nat 4]) = {0..<nat 4}"
    by (simp add: insertion_order_def)
  have o0: "set (insertion_order [0..<nat 0]) = {0..<nat 0}"
    by (simp add: insertion_order_def)
  from build_graph_needs_working_graph [where vars = 4 and a = "1/20" and n = 4 and K = 2
      and s = example_instance and order = insertion_order and verdict = rejects_2_1
      and gsl = zero_correlation and stride = 1 and test = p_value_chain and data = example_data,
      OF example_instance_run o]
    example_level0_run
  have a: "working_graph example_instance = None"
    "build_graph insertion_order rejects_2_1 example_instance = Inl NullPointerDereference"
    "working_graph example_level0 \<noteq> None" by simp_all
  from build_graph_needs_working_graph [where vars = 0 and K = 1 and order = insertion_order
      and verdict = never_rejects, OF example_no_variables_run o0]
  have b: "build_graph insertion_order never_rejects example_no_variables =
     Inr (example_no_variables
           \<lparr> cout := cout example_no_variables @
                [Str ''Starting to fill test_queue'', Endl,
                 Str ''Total independence tests made: '', Num 0, Endl] \<rparr>)" by simp
  from build_graph_needs_working_graph [where vars = 4 and K = "- 1" and order = insertion_order
      and verdict = never_rejects, OF example_negative_threads_run o]
  have c: "build_graph insertion_order never_rejects example_negative_threads = Inl LengthError"
    by simp
  show ?thesis
    by (intro conjI example_instance_run o a example_level0_run example_no_variables_run b
        example_negative_threads_run c) simp_all
qed

text \<open>
  C9 (as stated) fails on a freshly constructed instance without variables: the level
  loop is not entered, \<open>build_graph\<close> returns, and the pointer is still null. It also
  fails on a freshly constructed instance with a negative thread count, where
  \<open>build_graph\<close> fails at line 17 and does not reach the pointer.
\<close>

theorem build_graph_fresh_counterexample:
  "map_sum id working_graph
     (and_then (PCAlgorithm 0 (1/20) 10 1) (build_graph insertion_order never_rejects)) =
   Inr None \<and>
   and_then (PCAlgorithm 4 (1/20) 10 (- 1)) (build_graph insertion_order never_rejects) =
   Inl LengthError"
  by code_simp

section \<open>C10: the reads of build_correlation_matrix\<close>

text \<open>
  C10 (as amended). \<open>build_correlation_matrix\<close> takes the sample count \<open>n\<close> to be the
  length of \<open>data[0]\<close> and checks nothing. With \<open>STRIDE = 1\<close> and \<open>p\<close> the number of
  variables given to the constructor, all its reads are within bounds exactly when
  \<open>data\<close> has a first row and, if \<open>p \<ge> 2\<close>, has at least \<open>p\<close> rows of which each of
  the first \<open>p\<close> has length at least \<open>n\<close>. A read out of bounds is the only failure.
  The entries beyond \<open>n\<close> of longer rows and the rows from index \<open>p\<close> on are ignored:
  cutting every row to length \<open>n\<close>, or the data to its first \<open>p\<close> rows (to its first
  row when \<open>p = 0\<close>), changes nothing.
\<close>

theorem correlation_reads_in_bounds_iff:
  "((\<exists>s'. build_correlation_matrix gsl 1 test data s = Inr s') \<longleftrightarrow>
      data \<noteq> [] \<and>
      (2 \<le> nr_variables s \<longrightarrow>
         nr_variables s \<le> length data \<and>
         (\<forall>i<nr_variables s. length (data ! 0) \<le> length (data ! i)))) \<and>
   (\<forall>e. build_correlation_matrix gsl 1 test data s = Inl e \<longrightarrow> e = OutOfBoundsRead) \<and>
   build_correlation_matrix gsl 1 test (map (take (length (data ! 0))) data) s =
     build_correlation_matrix gsl 1 test data s \<and>
   build_correlation_matrix gsl 1 test (take (max 1 (nr_variables s)) data) s =
     build_correlation_matrix gsl 1 test data s"
proof (intro conjI allI impI)
  have "2 \<le> nr_variables s \<Longrightarrow>
        (\<forall>i<nr_variables s. i < length data \<and> length (data ! 0) \<le> length (data ! i)) \<longleftrightarrow>
        nr_variables s \<le> length data \<and>
        (\<forall>i<nr_variables s. length (data ! 0) \<le> length (data ! i))"
  proof -
    assume p: "2 \<le> nr_variables s"
    have "(\<forall>i<nr_variables s. i < length data) \<longleftrightarrow> nr_variables s \<le> length data"
    proof
      assume a: "\<forall>i<nr_variables s. i < length data"
      from p have "nr_variables s - 1 < nr_variables s" by simp
      with a have "nr_variables s - 1 < length data" by blast
      then show "nr_variables s \<le> length data" by simp
    qed auto
    then show ?thesis by blast
  qed
  then show "(\<exists>s'. build_correlation_matrix gsl 1 test data s = Inr s') \<longleftrightarrow>
      data \<noteq> [] \<and>
      (2 \<le> nr_variables s \<longrightarrow>
         nr_variables s \<le> length data \<and>
         (\<forall>i<nr_variables s. length (data ! 0) \<le> length (data ! i)))"
    unfolding build_correlation_matrix_returns_iff view_ok_stride_1 by blast
next
  fix e assume "build_correlation_matrix gsl 1 test data s = Inl e"
  then show "e = OutOfBoundsRead" by (rule build_correlation_matrix_error)
next
  show "build_correlation_matrix gsl 1 test (map (take (length (data ! 0))) data) s =
        build_correlation_matrix gsl 1 test data s"
    by (rule build_correlation_matrix_take)
next
  show "build_correlation_matrix gsl 1 test (take (max 1 (nr_variables s)) data) s =
        build_correlation_matrix gsl 1 test data s"
    by (rule build_correlation_matrix_take_rows)
qed

theorem correlation_reads_in_bounds_iff_witness:
  "build_correlation_matrix zero_correlation 1 p_value_chain example_data example_instance =
     Inr example_level0 \<and>
   example_data \<noteq> [] \<and> 2 \<le> nr_variables example_instance \<and>
   nr_variables example_instance \<le> length example_data \<and>
   length (example_data ! 0) \<le> length (example_data ! 3) \<and>
   build_correlation_matrix zero_correlation 1 p_value_chain
     (map (take (length (example_data ! 0))) example_data) example_instance = Inr example_level0"
proof -
  have n: "2 \<le> nr_variables example_instance" "3 < nr_variables example_instance"
    by code_simp+
  from correlation_reads_in_bounds_iff [of zero_correlation p_value_chain example_data
      example_instance] example_level0_run n
  show ?thesis by auto
qed

text \<open>
  C10 (as stated) fails in both directions when the data do not have exactly \<open>p\<close> rows.
  With two variables and the rows \<open>[1, 2]\<close>, \<open>[3, 4]\<close>, \<open>[5]\<close> all reads are within
  bounds although the third row is shorter than the first; with two variables and the
  single row \<open>[1, 2]\<close> every row is as long as the first, and \<open>data[1]\<close> is read out of
  bounds.
\<close>

theorem rectangularity_counterexample:
  "\<not> isl (and_then (PCAlgorithm 2 (1/20) 2 1)
            (build_correlation_matrix zero_correlation 1 p_value_zero [[1, 2], [3, 4], [5]])) \<and>
   \<not> list_all (\<lambda>row. length [1, 2 :: real] \<le> length row) [[1, 2], [3, 4], [5 :: real]] \<and>
   and_then (PCAlgorithm 2 (1/20) 2 1)
     (build_correlation_matrix zero_correlation 1 p_value_zero [[1, 2]]) = Inl OutOfBoundsRead \<and>
   list_all (\<lambda>row. length [1, 2 :: real] \<le> length row) [[1, 2 :: real]]"
  by code_simp

end
